theory Spec2Isabelle
  imports Main
begin

section \<open>The LRU cache of \<^verbatim>\<open>lru.go\<close>\<close>

text \<open>
  The cache is a hash map from keys to nodes of a doubly linked list. The nodes are Go heap
  objects that point at each other, and every operation mutates them in place, so the model
  keeps an explicit store of nodes: an address is a natural number, a Go pointer is
  \<open>addr option\<close> with \<open>None\<close> for the nil pointer.

  Keys and values have the Go type \<^verbatim>\<open>interface{}\<close>. An interface value is the nil
  interface, or a boxed value that Go's \<^verbatim>\<open>==\<close> finds equal to itself (\<open>boxed a\<close>, where
  \<open>a\<close> stands for the value up to \<^verbatim>\<open>==\<close>), or a boxed value that \<^verbatim>\<open>==\<close> finds unequal
  to everything, itself included (\<open>nan\<close>: a floating point NaN, or a struct or array that
  holds one). A key must be of a comparable dynamic type: a slice, map or function as a key
  makes the Go map panic and is not a key here.
\<close>

type_synonym addr = nat

datatype 'a iface = nil | boxed 'a | nan

subsection \<open>Go maps\<close>

text \<open>
  A Go map finds an entry by \<^verbatim>\<open>==\<close> on the keys. Under the keys that are equal to
  themselves it is a finite partial function, \<open>entry\<close>. A key that is unequal to itself is
  never found: an assignment under it adds one more entry each time, and no lookup,
  assignment or \<^verbatim>\<open>delete\<close> reaches that entry again; \<open>nan_entries\<close> holds the values of
  these entries. \<^verbatim>\<open>len\<close> counts both kinds.
\<close>

record ('k, 'a) gomap =
  entry :: "'k iface \<rightharpoonup> 'a"
  nan_entries :: "'a list"

text \<open>\<^verbatim>\<open>make(map[interface{}]*Node)\<close>\<close>

definition map_make :: "('k, 'a) gomap" where
  "map_make = \<lparr>entry = Map.empty, nan_entries = []\<rparr>"

text \<open>\<^verbatim>\<open>v, ok = m[k]\<close>, with \<open>None\<close> for \<^verbatim>\<open>ok == false\<close>\<close>

definition map_lookup :: "('k, 'a) gomap \<Rightarrow> 'k iface \<Rightarrow> 'a option" where
  "map_lookup m k = (if k = nan then None else entry m k)"

text \<open>\<^verbatim>\<open>m[k] = v\<close>\<close>

definition map_store :: "'k iface \<Rightarrow> 'a \<Rightarrow> ('k, 'a) gomap \<Rightarrow> ('k, 'a) gomap" where
  "map_store k v m =
     (if k = nan then m\<lparr>nan_entries := v # nan_entries m\<rparr>
      else m\<lparr>entry := (entry m)(k \<mapsto> v)\<rparr>)"

text \<open>\<^verbatim>\<open>delete(m, k)\<close>\<close>

definition map_delete :: "'k iface \<Rightarrow> ('k, 'a) gomap \<Rightarrow> ('k, 'a) gomap" where
  "map_delete k m = (if k = nan then m else m\<lparr>entry := (entry m)(k := None)\<rparr>)"

text \<open>
  \<^verbatim>\<open>len(m)\<close>. It and \<open>cap\<close> are Go \<^verbatim>\<open>int\<close>s that the code only compares, so they are
  integers here: every machine value of \<open>cap\<close> is one of them, and the number of entries of
  a map in memory is far below the largest \<^verbatim>\<open>int\<close>.
\<close>

definition len :: "('k, 'a) gomap \<Rightarrow> int" where
  "len m = int (card (dom (entry m))) + int (length (nan_entries m))"

record ('k, 'v) Node =
  Key :: "'k iface"
  Value :: "'v iface"
  Pre :: "addr option"
  Next :: "addr option"

text \<open>
  The struct \<^verbatim>\<open>LRUCache\<close> has the fields \<open>cap\<close>, \<open>head\<close>, \<open>tail\<close> and \<open>nodeMap\<close>
  (and the mutex, which a sequential run never observes). The last two fields of the record
  are the part of the Go heap that holds the nodes: \<open>nodes\<close> maps an address to the node
  stored there, \<open>fresh\<close> is the next address that \<^verbatim>\<open>NewNode\<close> hands out.
\<close>

record ('k, 'v) LRUCache =
  cap :: int
  head :: "addr option"
  tail :: "addr option"
  nodeMap :: "('k, addr) gomap"
  nodes :: "addr \<Rightarrow> ('k, 'v) Node"
  fresh :: addr

subsection \<open>Field assignments through a pointer\<close>

definition set_Pre :: "addr \<Rightarrow> addr option \<Rightarrow> ('k, 'v) LRUCache \<Rightarrow> ('k, 'v) LRUCache" where
  "set_Pre n p s = s\<lparr>nodes := (nodes s)(n := (nodes s n)\<lparr>Pre := p\<rparr>)\<rparr>"

definition set_Next :: "addr \<Rightarrow> addr option \<Rightarrow> ('k, 'v) LRUCache \<Rightarrow> ('k, 'v) LRUCache" where
  "set_Next n p s = s\<lparr>nodes := (nodes s)(n := (nodes s n)\<lparr>Next := p\<rparr>)\<rparr>"

definition set_Value :: "addr \<Rightarrow> 'v iface \<Rightarrow> ('k, 'v) LRUCache \<Rightarrow> ('k, 'v) LRUCache" where
  "set_Value n v s = s\<lparr>nodes := (nodes s)(n := (nodes s n)\<lparr>Value := v\<rparr>)\<rparr>"

subsection \<open>Constructors\<close>

text \<open>\<^verbatim>\<open>NewNode\<close> allocates a node with nil links and returns its address.\<close>

definition NewNode ::
  "'k iface \<Rightarrow> 'v iface \<Rightarrow> ('k, 'v) LRUCache \<Rightarrow> addr \<times> ('k, 'v) LRUCache" where
  "NewNode key val s =
     (fresh s,
      s\<lparr>nodes := (nodes s)(fresh s := \<lparr>Key = key, Value = val, Pre = None, Next = None\<rparr>),
        fresh := Suc (fresh s)\<rparr>)"

text \<open>
  \<^verbatim>\<open>NewLRUCache\<close> stores the capacity it is given, whatever its sign, and makes an empty
  map; \<open>head\<close> and \<open>tail\<close> are the nil pointers of the zero-valued struct.
\<close>

definition NewLRUCache :: "int \<Rightarrow> ('k, 'v) LRUCache" where
  "NewLRUCache c =
     \<lparr>cap = c, head = None, tail = None, nodeMap = map_make,
      nodes = (\<lambda>_. \<lparr>Key = nil, Value = nil, Pre = None, Next = None\<rparr>), fresh = 0\<rparr>"

subsection \<open>The list primitives\<close>

definition addFirst :: "addr \<Rightarrow> ('k, 'v) LRUCache \<Rightarrow> ('k, 'v) LRUCache" where
  "addFirst node s =
     (let s1 = set_Pre node None s;
          s2 = (case head s1 of
                  None \<Rightarrow> s1\<lparr>head := Some node, tail := Some node\<rparr>
                | Some h \<Rightarrow>
                    (let s3 = set_Next node (Some h) s1;
                         s4 = set_Pre h (Some node) s3
                     in s4\<lparr>head := Some node\<rparr>))
      in s2\<lparr>nodeMap := map_store (Key (nodes s2 node)) node (nodeMap s2)\<rparr>)"

definition remove :: "addr \<Rightarrow> ('k, 'v) LRUCache \<Rightarrow> ('k, 'v) LRUCache" where
  "remove node s =
     (let pre = Pre (nodes s node);
          next = Next (nodes s node);
          s1 = (case pre of
                  Some p \<Rightarrow> set_Next p next s
                | None \<Rightarrow> s\<lparr>head := next\<rparr>);
          s2 = (case next of
                  Some x \<Rightarrow> set_Pre x pre s1
                | None \<Rightarrow> s1\<lparr>tail := pre\<rparr>)
      in s2\<lparr>nodeMap := map_delete (Key (nodes s2 node)) (nodeMap s2)\<rparr>)"

definition removeLast :: "('k, 'v) LRUCache \<Rightarrow> ('k, 'v) LRUCache" where
  "removeLast s =
     (case tail s of
        None \<Rightarrow> s
      | Some t \<Rightarrow>
          (let s1 = s\<lparr>nodeMap := map_delete (Key (nodes s t)) (nodeMap s)\<rparr>
           in case Pre (nodes s1 t) of
                None \<Rightarrow> s1\<lparr>tail := None, head := None\<rparr>
              | Some p \<Rightarrow> (set_Next p None s1)\<lparr>tail := Some p\<rparr>))"

subsection \<open>The public operations\<close>

text \<open>
  \<^verbatim>\<open>Get\<close> returns one \<^verbatim>\<open>interface{}\<close>: nil when the key is not in the map, the
  value of the node otherwise.
\<close>

definition Get :: "'k iface \<Rightarrow> ('k, 'v) LRUCache \<Rightarrow> 'v iface \<times> ('k, 'v) LRUCache" where
  "Get key s =
     (case map_lookup (nodeMap s) key of
        None \<Rightarrow> (nil, s)
      | Some node \<Rightarrow>
          (let s1 = remove node s;
               s2 = addFirst node s1
           in (Value (nodes s2 node), s2)))"

definition Put :: "'k iface \<Rightarrow> 'v iface \<Rightarrow> ('k, 'v) LRUCache \<Rightarrow> ('k, 'v) LRUCache" where
  "Put key val s =
     (case map_lookup (nodeMap s) key of
        None \<Rightarrow>
          (let s1 = (if len (nodeMap s) \<ge> cap s then removeLast s else s);
               (node, s2) = NewNode key val s1
           in addFirst node s2)
      | Some node \<Rightarrow>
          (let s1 = set_Value node val s;
               s2 = remove node s1
           in addFirst node s2))"

subsection \<open>Sequences of calls\<close>

datatype ('k, 'v) call = CallGet "'k iface" | CallPut "'k iface" "'v iface"

fun key_of :: "('k, 'v) call \<Rightarrow> 'k iface" where
  "key_of (CallGet k) = k"
| "key_of (CallPut k v) = k"

text \<open>A \<^verbatim>\<open>Put\<close> on a key that is unequal to itself is the call that the map cannot undo.\<close>

fun put_comparable :: "('k, 'v) call \<Rightarrow> bool" where
  "put_comparable (CallGet k) = True"
| "put_comparable (CallPut k v) = (k \<noteq> nan)"

fun exec :: "('k, 'v) call \<Rightarrow> ('k, 'v) LRUCache \<Rightarrow> ('k, 'v) LRUCache" where
  "exec (CallGet k) s = snd (Get k s)"
| "exec (CallPut k v) s = Put k v s"

definition run :: "('k, 'v) call list \<Rightarrow> ('k, 'v) LRUCache \<Rightarrow> ('k, 'v) LRUCache" where
  "run cs s = foldl (\<lambda>t c. exec c t) s cs"

subsection \<open>Reading the list off the heap\<close>

text \<open>
  \<open>walk f n h p\<close> follows the link \<open>f\<close> from the pointer \<open>p\<close> for at most \<open>n\<close> nodes.
  No list of the cache is longer than the number of nodes ever allocated, so \<open>fresh\<close> is
  enough fuel to reach the nil pointer that ends it.
\<close>

fun walk ::
  "(('k, 'v) Node \<Rightarrow> addr option) \<Rightarrow> nat \<Rightarrow> (addr \<Rightarrow> ('k, 'v) Node) \<Rightarrow> addr option \<Rightarrow> addr list"
  where
  "walk f 0 h p = []"
| "walk f (Suc n) h None = []"
| "walk f (Suc n) h (Some a) = a # walk f n h (f (h a))"

definition forward :: "('k, 'v) LRUCache \<Rightarrow> addr list" where
  "forward s = walk Next (fresh s) (nodes s) (head s)"

definition backward :: "('k, 'v) LRUCache \<Rightarrow> addr list" where
  "backward s = walk Pre (fresh s) (nodes s) (tail s)"

definition entry_at :: "('k, 'v) LRUCache \<Rightarrow> addr \<Rightarrow> 'k iface \<times> 'v iface" where
  "entry_at s a = (Key (nodes s a), Value (nodes s a))"

text \<open>The key-value pairs of the cache in recency order, the front of the list first.\<close>

definition entries :: "('k, 'v) LRUCache \<Rightarrow> ('k iface \<times> 'v iface) list" where
  "entries s = map (entry_at s) (forward s)"

subsection \<open>Lists of addresses and their links\<close>

text \<open>
  The links that a doubly linked list with the nodes \<open>xs\<close>, front to back, must have:
  its first and last node, and the successor and predecessor of a node in it.
\<close>

primrec first_of :: "'a list \<Rightarrow> 'a option" where
  "first_of [] = None"
| "first_of (x # xs) = Some x"

primrec last_of :: "'a list \<Rightarrow> 'a option" where
  "last_of [] = None"
| "last_of (x # xs) = (if xs = [] then Some x else last_of xs)"

primrec succ_of :: "'a list \<Rightarrow> 'a \<Rightarrow> 'a option" where
  "succ_of [] a = None"
| "succ_of (x # xs) a = (if a = x then first_of xs else succ_of xs a)"

primrec pred_of :: "'a list \<Rightarrow> 'a \<Rightarrow> 'a option" where
  "pred_of [] a = None"
| "pred_of (x # xs) a = (if first_of xs = Some a then Some x else pred_of xs a)"

text \<open>
  \<open>linked s xs\<close>: the list of the cache \<open>s\<close> is made of the nodes \<open>xs\<close>, front to
  back, every link of it is in place, and the keys that the map finds are exactly the keys
  of these nodes that are equal to themselves, each at its own node.
\<close>

definition linked :: "('k, 'v) LRUCache \<Rightarrow> addr list \<Rightarrow> bool" where
  "linked s xs \<longleftrightarrow>
     distinct xs \<and> head s = first_of xs \<and> tail s = last_of xs \<and>
     (\<forall>a\<in>set xs. Pre (nodes s a) = pred_of xs a \<and> Next (nodes s a) = succ_of xs a \<and>
        a < fresh s \<and>
        (Key (nodes s a) \<noteq> nan \<longrightarrow> entry (nodeMap s) (Key (nodes s a)) = Some a)) \<and>
     dom (entry (nodeMap s)) = (\<lambda>a. Key (nodes s a)) ` set xs - {nan}"

text \<open>
  \<open>comparable s xs\<close>: moreover no node of the list has a key that is unequal to itself, and
  the map has no entry under such a key.
\<close>

definition comparable :: "('k, 'v) LRUCache \<Rightarrow> addr list \<Rightarrow> bool" where
  "comparable s xs \<longleftrightarrow>
     linked s xs \<and> nan_entries (nodeMap s) = [] \<and> (\<forall>a\<in>set xs. Key (nodes s a) \<noteq> nan)"

subsection \<open>What a caller observes\<close>

text \<open>
  The driver in \<^verbatim>\<open>main\<close> tells a miss from a hit by the one value \<^verbatim>\<open>Get\<close> returns:
  it prints \<^verbatim>\<open>miss!\<close> when \<^verbatim>\<open>res == nil\<close>.
\<close>

definition miss :: "'v iface \<Rightarrow> bool" where
  "miss res \<longleftrightarrow> res = nil"

text \<open>The value the cache holds for a key: the value of the node the map gives for it.\<close>

definition stored :: "('k, 'v) LRUCache \<Rightarrow> 'k iface \<rightharpoonup> 'v iface" where
  "stored s k = map_option (\<lambda>n. Value (nodes s n)) (map_lookup (nodeMap s) k)"

text \<open>
  \<open>last_touch ks k\<close> is the time of the latest call on the key \<open>k\<close> in a history whose
  calls were on the keys \<open>ks\<close>, oldest first: the position of the last \<open>k\<close> in \<open>ks\<close>,
  counted from 1, and 0 when no call was on \<open>k\<close>.
\<close>

definition last_touch :: "'a list \<Rightarrow> 'a \<Rightarrow> nat" where
  "last_touch ks k = length (dropWhile (\<lambda>x. x \<noteq> k) (rev ks))"

text \<open>
  \<open>by_recency ks K\<close>: the keys \<open>K\<close> are in the order of their latest calls in the
  history \<open>ks\<close>, the most recent first, and each of them was called.
\<close>

definition by_recency :: "'a list \<Rightarrow> 'a list \<Rightarrow> bool" where
  "by_recency ks K \<longleftrightarrow>
     sorted_wrt (\<lambda>a b. last_touch ks b < last_touch ks a) K \<and> set K \<subseteq> set ks"

section \<open>Properties of the primitives\<close>

subsection \<open>Links of a list\<close>

lemma first_of_None [simp]: "(first_of xs = None) = (xs = [])"
  by (cases xs) auto

lemma last_of_None [simp]: "(last_of xs = None) = (xs = [])"
  by (induction xs) auto

lemma last_of_in: "last_of xs = Some t \<Longrightarrow> t \<in> set xs"
  by (induction xs) (auto split: if_splits)

lemma first_of_in: "first_of xs = Some t \<Longrightarrow> t \<in> set xs"
  by (cases xs) auto

lemma succ_of_notin: "a \<notin> set xs \<Longrightarrow> succ_of xs a = None"
  by (induction xs) auto

lemma pred_of_notin: "a \<notin> set xs \<Longrightarrow> pred_of xs a = None"
  by (induction xs) (auto dest: first_of_in)

lemma succ_of_in: "succ_of xs a = Some b \<Longrightarrow> a \<in> set xs \<and> b \<in> set xs"
  by (induction xs) (auto split: if_splits dest: first_of_in)

lemma pred_of_in: "pred_of xs a = Some b \<Longrightarrow> a \<in> set xs \<and> b \<in> set xs"
  by (induction xs) (auto split: if_splits dest: first_of_in)

lemma pred_of_first: "distinct xs \<Longrightarrow> first_of xs = Some a \<Longrightarrow> pred_of xs a = None"
  by (cases xs) (auto dest: first_of_in simp: pred_of_notin)

lemma first_of_pred: "a \<in> set xs \<Longrightarrow> pred_of xs a = None \<Longrightarrow> first_of xs = Some a"
  by (induction xs) (auto split: if_splits)

lemma succ_of_last: "distinct xs \<Longrightarrow> last_of xs = Some a \<Longrightarrow> succ_of xs a = None"
  by (induction xs) (auto split: if_splits dest: last_of_in)

lemma last_of_succ: "a \<in> set xs \<Longrightarrow> succ_of xs a = None \<Longrightarrow> last_of xs = Some a"
  by (induction xs) (auto split: if_splits)

lemma succ_pred: "distinct xs \<Longrightarrow> (succ_of xs a = Some b) = (pred_of xs b = Some a)"
  by (induction xs) (auto dest: succ_of_in pred_of_in first_of_in simp: pred_of_first)

lemma succ_of_neq: "distinct xs \<Longrightarrow> succ_of xs a \<noteq> Some a"
  by (induction xs) (auto dest: succ_of_in first_of_in)

lemma pred_of_neq: "distinct xs \<Longrightarrow> pred_of xs a \<noteq> Some a"
  by (induction xs) (auto dest: pred_of_in first_of_in)

lemma first_of_remove1: "distinct xs \<Longrightarrow> n \<in> set xs \<Longrightarrow>
  first_of (remove1 n xs) = (if pred_of xs n = None then succ_of xs n else first_of xs)"
proof (cases xs)
  case Nil
  assume "n \<in> set xs" with Nil show ?thesis by simp
next
  case (Cons x r)
  assume "distinct xs" "n \<in> set xs"
  with Cons show ?thesis
    by (cases r) (auto simp: pred_of_notin dest: first_of_pred first_of_in)
qed

lemma succ_of_remove1: "distinct xs \<Longrightarrow> a \<noteq> n \<Longrightarrow>
  succ_of (remove1 n xs) a = (if succ_of xs a = Some n then succ_of xs n else succ_of xs a)"
proof (induction xs)
  case Nil
  then show ?case by simp
next
  case (Cons x r)
  then show ?case
    by (cases r) (auto simp: succ_of_notin  dest: succ_of_in first_of_in)
qed

lemma pred_of_remove1: "distinct xs \<Longrightarrow> a \<noteq> n \<Longrightarrow>
  pred_of (remove1 n xs) a = (if pred_of xs a = Some n then pred_of xs n else pred_of xs a)"
proof (induction xs)
  case Nil
  then show ?case by simp
next
  case (Cons x r)
  then show ?case
    by (cases r) (auto simp: pred_of_notin pred_of_first first_of_remove1 dest: pred_of_in first_of_in first_of_pred)
qed

lemma last_of_remove1: "distinct xs \<Longrightarrow> n \<in> set xs \<Longrightarrow>
  last_of (remove1 n xs) = (if succ_of xs n = None then pred_of xs n else last_of xs)"
proof (induction xs)
  case Nil
  then show ?case by simp
next
  case (Cons x r)
  then show ?case
    by (cases r) (auto simp: pred_of_notin succ_of_notin pred_of_first dest: last_of_in first_of_in last_of_succ split: if_splits)
qed

subsection \<open>What \<^verbatim>\<open>remove\<close> and \<^verbatim>\<open>addFirst\<close> write\<close>

lemma entry_map_store [simp]:
  "entry (map_store k v m) = (if k = nan then entry m else (entry m)(k \<mapsto> v))"
  by (simp add: map_store_def)

lemma entry_map_delete [simp]:
  "entry (map_delete k m) = (if k = nan then entry m else (entry m)(k := None))"
  by (simp add: map_delete_def)

lemma nan_entries_map_store [simp]:
  "nan_entries (map_store k v m) = (if k = nan then v # nan_entries m else nan_entries m)"
  by (simp add: map_store_def)

lemma nan_entries_map_delete [simp]: "nan_entries (map_delete k m) = nan_entries m"
  by (simp add: map_delete_def)

lemma map_lookup_nan [simp]: "map_lookup m nan = None"
  by (simp add: map_lookup_def)

lemma map_lookup_Some: "map_lookup m k = Some a \<longleftrightarrow> k \<noteq> nan \<and> entry m k = Some a"
  by (simp add: map_lookup_def)

lemma map_store_delete: "entry m k = Some a \<Longrightarrow> k \<noteq> nan \<Longrightarrow> map_store k a (map_delete k m) = m"
  by (simp add: map_store_def map_delete_def fun_upd_idem)

lemma Pre_remove: "Pre (nodes (remove n s) a) =
    (if Next (nodes s n) = Some a then Pre (nodes s n) else Pre (nodes s a))"
  by (simp add: remove_def Let_def set_Pre_def set_Next_def split: option.splits)

lemma Next_remove: "Next (nodes (remove n s) a) =
    (if Pre (nodes s n) = Some a then Next (nodes s n) else Next (nodes s a))"
  by (simp add: remove_def Let_def set_Pre_def set_Next_def split: option.splits)

lemma head_remove: "head (remove n s) = (if Pre (nodes s n) = None then Next (nodes s n) else head s)"
  by (simp add: remove_def Let_def set_Pre_def set_Next_def split: option.splits)

lemma tail_remove: "tail (remove n s) = (if Next (nodes s n) = None then Pre (nodes s n) else tail s)"
  by (simp add: remove_def Let_def set_Pre_def set_Next_def split: option.splits)

lemma Key_remove [simp]: "Key (nodes (remove n s) a) = Key (nodes s a)"
  by (simp add: remove_def Let_def set_Pre_def set_Next_def split: option.splits)

lemma Value_remove [simp]: "Value (nodes (remove n s) a) = Value (nodes s a)"
  by (simp add: remove_def Let_def set_Pre_def set_Next_def split: option.splits)

lemma nodeMap_remove: "nodeMap (remove n s) = map_delete (Key (nodes s n)) (nodeMap s)"
  by (simp add: remove_def Let_def set_Pre_def set_Next_def split: option.splits)

lemma fresh_remove [simp]: "fresh (remove n s) = fresh s"
  by (simp add: remove_def Let_def set_Pre_def set_Next_def split: option.splits)

lemma cap_remove [simp]: "cap (remove n s) = cap s"
  by (simp add: remove_def Let_def set_Pre_def set_Next_def split: option.splits)

lemma Pre_addFirst: "Pre (nodes (addFirst n s) a) =
    (if head s = Some a then Some n else if a = n then None else Pre (nodes s a))"
  by (simp add: addFirst_def Let_def set_Pre_def set_Next_def split: option.splits)

lemma Next_addFirst: "Next (nodes (addFirst n s) a) =
    (if a = n \<and> head s \<noteq> None then head s else Next (nodes s a))"
  by (simp add: addFirst_def Let_def set_Pre_def set_Next_def split: option.splits)

lemma head_addFirst [simp]: "head (addFirst n s) = Some n"
  by (simp add: addFirst_def Let_def set_Pre_def set_Next_def split: option.splits)

lemma tail_addFirst: "tail (addFirst n s) = (if head s = None then Some n else tail s)"
  by (simp add: addFirst_def Let_def set_Pre_def set_Next_def split: option.splits)

lemma Key_addFirst [simp]: "Key (nodes (addFirst n s) a) = Key (nodes s a)"
  by (simp add: addFirst_def Let_def set_Pre_def set_Next_def split: option.splits)

lemma Value_addFirst [simp]: "Value (nodes (addFirst n s) a) = Value (nodes s a)"
  by (simp add: addFirst_def Let_def set_Pre_def set_Next_def split: option.splits)

lemma nodeMap_addFirst: "nodeMap (addFirst n s) = map_store (Key (nodes s n)) n (nodeMap s)"
  by (simp add: addFirst_def Let_def set_Pre_def set_Next_def split: option.splits)

lemma fresh_addFirst [simp]: "fresh (addFirst n s) = fresh s"
  by (simp add: addFirst_def Let_def set_Pre_def set_Next_def split: option.splits)

lemma cap_addFirst [simp]: "cap (addFirst n s) = cap s"
  by (simp add: addFirst_def Let_def set_Pre_def set_Next_def split: option.splits)

lemma linked_Key_inj: "linked s xs \<Longrightarrow> a \<in> set xs \<Longrightarrow> b \<in> set xs \<Longrightarrow>
    Key (nodes s a) = Key (nodes s b) \<Longrightarrow> Key (nodes s a) \<noteq> nan \<Longrightarrow> a = b"
  unfolding linked_def by (metis option.inject)

lemma linked_nodeMap:
  "linked s xs \<Longrightarrow> map_lookup (nodeMap s) k = Some a \<Longrightarrow>
   a \<in> set xs \<and> Key (nodes s a) = k \<and> k \<noteq> nan \<and> entry (nodeMap s) k = Some a"
proof -
  assume l: "linked s xs" and m: "map_lookup (nodeMap s) k = Some a"
  from m have k: "k \<noteq> nan" "entry (nodeMap s) k = Some a" by (simp_all add: map_lookup_Some)
  then have "k \<in> dom (entry (nodeMap s))" by blast
  with l obtain b where b: "b \<in> set xs" "Key (nodes s b) = k" by (auto simp: linked_def)
  with l k have "entry (nodeMap s) k = Some b" by (auto simp: linked_def)
  with k b show ?thesis by simp
qed

lemma linked_remove:
  assumes "linked s xs" "n \<in> set xs"
  shows "linked (remove n s) (remove1 n xs)"
proof -
  from assms have d: "distinct xs" by (simp add: linked_def)
  have inj: "\<And>a. a \<in> set xs \<Longrightarrow> a \<noteq> n \<Longrightarrow> Key (nodes s a) \<noteq> nan \<Longrightarrow>
      Key (nodes s a) \<noteq> Key (nodes s n)"
    using linked_Key_inj [OF assms(1) _ assms(2)] by blast
  have 1: "distinct (remove1 n xs)" using d by simp
  have 2: "head (remove n s) = first_of (remove1 n xs)"
    using assms d by (simp add: head_remove first_of_remove1 linked_def)
  have 3: "tail (remove n s) = last_of (remove1 n xs)"
    using assms d by (simp add: tail_remove last_of_remove1 linked_def)
  have 4: "Pre (nodes (remove n s) a) = pred_of (remove1 n xs) a" if "a \<in> set (remove1 n xs)" for a
  proof -
    from that d have a: "a \<in> set xs" "a \<noteq> n" by auto
    show ?thesis using assms a d
      by (simp add: Pre_remove pred_of_remove1 linked_def succ_pred)
  qed
  have 5: "Next (nodes (remove n s) a) = succ_of (remove1 n xs) a" if "a \<in> set (remove1 n xs)" for a
  proof -
    from that d have a: "a \<in> set xs" "a \<noteq> n" by auto
    show ?thesis using assms a d
      by (simp add: Next_remove succ_of_remove1 linked_def succ_pred [symmetric])
  qed
  have 6: "a < fresh (remove n s) \<and> (Key (nodes (remove n s) a) \<noteq> nan \<longrightarrow>
      entry (nodeMap (remove n s)) (Key (nodes (remove n s) a)) = Some a)"
    if "a \<in> set (remove1 n xs)" for a
  proof -
    from that d have a: "a \<in> set xs" "a \<noteq> n" by auto
    show ?thesis using assms(1) a inj [OF a]
      by (auto simp: nodeMap_remove linked_def)
  qed
  have 7: "dom (entry (nodeMap (remove n s))) =
      (\<lambda>a. Key (nodes (remove n s) a)) ` set (remove1 n xs) - {nan}"
    using assms d inj by (auto simp: nodeMap_remove linked_def)
  show ?thesis unfolding linked_def using 1 2 3 4 5 6 7 by blast
qed

lemma linked_addFirst:
  assumes "linked s xs" "n \<notin> set xs" "n < fresh s"
    and "map_lookup (nodeMap s) (Key (nodes s n)) = None"
    and "xs = [] \<longrightarrow> Next (nodes s n) = None"
  shows "linked (addFirst n s) (n # xs)"
proof -
  from assms have d: "distinct xs" by (simp add: linked_def)
  have k: "\<And>a. a \<in> set xs \<Longrightarrow> Key (nodes s a) \<noteq> nan \<Longrightarrow> Key (nodes s a) \<noteq> Key (nodes s n)"
    using assms(1,4) by (auto simp: linked_def map_lookup_def split: if_splits)
  have 1: "distinct (n # xs)" using d assms(2) by simp
  have 2: "head (addFirst n s) = first_of (n # xs)" by simp
  have 3: "tail (addFirst n s) = last_of (n # xs)"
    using assms(1) by (simp add: tail_addFirst linked_def)
  have 4: "Pre (nodes (addFirst n s) a) = pred_of (n # xs) a" if "a \<in> set (n # xs)" for a
    using that assms(1,2) d
    by (auto simp: Pre_addFirst linked_def pred_of_notin dest: first_of_in)
  have 5: "Next (nodes (addFirst n s) a) = succ_of (n # xs) a" if "a \<in> set (n # xs)" for a
    using that assms(1,2,5) d
    by (auto simp: Next_addFirst linked_def)
  have 6: "a < fresh (addFirst n s) \<and> (Key (nodes (addFirst n s) a) \<noteq> nan \<longrightarrow>
      entry (nodeMap (addFirst n s)) (Key (nodes (addFirst n s) a)) = Some a)"
    if "a \<in> set (n # xs)" for a
  proof (cases "a = n")
    case True
    then show ?thesis using assms(3) by (simp add: nodeMap_addFirst)
  next
    case False
    with that have a: "a \<in> set xs" by simp
    have "Key (nodes s a) \<noteq> nan \<Longrightarrow> entry (nodeMap s) (Key (nodes s a)) = Some a"
      using assms(1) a by (simp add: linked_def)
    moreover have "a < fresh s" using assms(1) a by (simp add: linked_def)
    ultimately show ?thesis using k [OF a] by (simp add: nodeMap_addFirst)
  qed
  have 7: "dom (entry (nodeMap (addFirst n s))) =
      (\<lambda>a. Key (nodes (addFirst n s) a)) ` set (n # xs) - {nan}"
    using assms(1) by (auto simp: nodeMap_addFirst linked_def)
  show ?thesis unfolding linked_def using 1 2 3 4 5 6 7 by blast
qed

subsection \<open>The operations keep the list linked\<close>

lemma remove1_last: "distinct xs \<Longrightarrow> last_of xs = Some t \<Longrightarrow> remove1 t xs = butlast xs"
  by (induction xs) (auto split: if_splits dest: last_of_in)

lemma removeLast_empty: "tail s = None \<Longrightarrow> removeLast s = s"
  by (simp add: removeLast_def)

lemma removeLast_remove:
  "tail s = Some t \<Longrightarrow> Next (nodes s t) = None \<Longrightarrow> removeLast s = remove t s"
  by (simp add: removeLast_def remove_def Let_def set_Next_def split: option.splits)

lemma linked_removeLast:
  assumes "linked s xs"
  shows "linked (removeLast s) (butlast xs)"
proof (cases "last_of xs")
  case None
  with assms show ?thesis by (simp add: linked_def removeLast_empty)
next
  case (Some t)
  from assms have d: "distinct xs" by (simp add: linked_def)
  from Some have t: "t \<in> set xs" by (rule last_of_in)
  have "tail s = Some t" using assms Some by (simp add: linked_def)
  moreover have "Next (nodes s t) = None"
    using assms t Some d by (simp add: linked_def succ_of_last)
  ultimately have "removeLast s = remove t s" by (rule removeLast_remove)
  with linked_remove [OF assms t] remove1_last [OF d Some] show ?thesis by simp
qed

lemma set_Value_fields [simp]:
  "Key (nodes (set_Value n v s) a) = Key (nodes s a)"
  "Pre (nodes (set_Value n v s) a) = Pre (nodes s a)"
  "Next (nodes (set_Value n v s) a) = Next (nodes s a)"
  "Value (nodes (set_Value n v s) a) = (if a = n then v else Value (nodes s a))"
  "head (set_Value n v s) = head s" "tail (set_Value n v s) = tail s"
  "nodeMap (set_Value n v s) = nodeMap s" "fresh (set_Value n v s) = fresh s"
  "cap (set_Value n v s) = cap s"
  by (simp_all add: set_Value_def)

lemma linked_set_Value: "linked s xs \<Longrightarrow> linked (set_Value n v s) xs"
  by (simp add: linked_def)

lemma NewNode_fields [simp]:
  "fst (NewNode k v s) = fresh s"
  "nodes (snd (NewNode k v s)) a =
     (if a = fresh s then \<lparr>Key = k, Value = v, Pre = None, Next = None\<rparr> else nodes s a)"
  "head (snd (NewNode k v s)) = head s" "tail (snd (NewNode k v s)) = tail s"
  "nodeMap (snd (NewNode k v s)) = nodeMap s" "fresh (snd (NewNode k v s)) = Suc (fresh s)"
  "cap (snd (NewNode k v s)) = cap s"
  by (simp_all add: NewNode_def)

lemma linked_NewNode:
  assumes "linked s xs"
  shows "linked (snd (NewNode k v s)) xs"
proof -
  have "\<And>a. a \<in> set xs \<Longrightarrow> a \<noteq> fresh s \<and> a < Suc (fresh s)"
    using assms by (auto simp: linked_def)
  with assms show ?thesis by (simp add: linked_def)
qed

lemma linked_NewNode_addFirst:
  assumes "linked s xs" "map_lookup (nodeMap s) k = None"
  shows "linked (addFirst (fresh s) (snd (NewNode k v s))) (fresh s # xs)"
proof (rule linked_addFirst)
  show "linked (snd (NewNode k v s)) xs" using assms(1) by (rule linked_NewNode)
  show "fresh s \<notin> set xs" using assms(1) by (auto simp: linked_def)
  show "fresh s < fresh (snd (NewNode k v s))" by simp
  show "map_lookup (nodeMap (snd (NewNode k v s))) (Key (nodes (snd (NewNode k v s)) (fresh s))) = None"
    using assms(2) by simp
  show "xs = [] \<longrightarrow> Next (nodes (snd (NewNode k v s)) (fresh s)) = None" by simp
qed

lemma linked_touch:
  assumes "linked s xs" "n \<in> set xs"
  shows "linked (addFirst n (remove n s)) (n # remove1 n xs)"
proof (rule linked_addFirst)
  from assms have d: "distinct xs" by (simp add: linked_def)
  show "linked (remove n s) (remove1 n xs)" using assms by (rule linked_remove)
  show "n \<notin> set (remove1 n xs)" using d by simp
  show "n < fresh (remove n s)" using assms by (simp add: linked_def)
  show "map_lookup (nodeMap (remove n s)) (Key (nodes (remove n s) n)) = None"
    by (simp add: nodeMap_remove map_lookup_def)
  show "remove1 n xs = [] \<longrightarrow> Next (nodes (remove n s) n) = None"
  proof
    assume e: "remove1 n xs = []"
    have "xs = [n]"
    proof (cases xs)
      case Nil with assms(2) show ?thesis by simp
    next
      case (Cons x r)
      with e assms(2) show ?thesis by (auto split: if_splits)
    qed
    with assms show "Next (nodes (remove n s) n) = None"
      by (simp add: Next_remove linked_def)
  qed
qed

lemma linked_Get:
  "linked s xs \<Longrightarrow>
   linked (snd (Get k s)) (case map_lookup (nodeMap s) k of None \<Rightarrow> xs | Some n \<Rightarrow> n # remove1 n xs)"
  by (auto simp: Get_def Let_def split: option.splits dest: linked_nodeMap intro: linked_touch)

lemma fresh_removeLast [simp]: "fresh (removeLast s) = fresh s"
  by (simp add: removeLast_def Let_def set_Next_def split: option.splits)

lemma Key_removeLast [simp]: "Key (nodes (removeLast s) a) = Key (nodes s a)"
  by (simp add: removeLast_def Let_def set_Next_def split: option.splits)

lemma Value_removeLast [simp]: "Value (nodes (removeLast s) a) = Value (nodes s a)"
  by (simp add: removeLast_def Let_def set_Next_def split: option.splits)

lemma cap_removeLast [simp]: "cap (removeLast s) = cap s"
  by (simp add: removeLast_def Let_def set_Next_def split: option.splits)

lemma nodeMap_removeLast:
  "tail s = Some t \<Longrightarrow> nodeMap (removeLast s) = map_delete (Key (nodes s t)) (nodeMap s)"
  by (simp add: removeLast_def Let_def set_Next_def split: option.splits)

lemma map_lookup_removeLast:
  "map_lookup (nodeMap s) k = None \<Longrightarrow> map_lookup (nodeMap (removeLast s)) k = None"
  by (cases "tail s")
    (auto simp: removeLast_empty nodeMap_removeLast map_lookup_def split: if_splits)

lemma Put_miss_state:
  "map_lookup (nodeMap s) k = None \<Longrightarrow>
   Put k v s = addFirst (fresh s)
     (snd (NewNode k v (if cap s \<le> len (nodeMap s) then removeLast s else s)))"
  by (simp add: Put_def Let_def NewNode_def split: prod.splits)

lemma Put_hit_state:
  "map_lookup (nodeMap s) k = Some n \<Longrightarrow> Put k v s = addFirst n (remove n (set_Value n v s))"
  by (simp add: Put_def Let_def)

lemma Get_hit_state:
  "map_lookup (nodeMap s) k = Some n \<Longrightarrow> snd (Get k s) = addFirst n (remove n s)"
  by (simp add: Get_def Let_def)

lemma linked_Put:
  assumes "linked s xs"
  shows "linked (Put k v s)
     (case map_lookup (nodeMap s) k of
        None \<Rightarrow> fresh s # (if cap s \<le> len (nodeMap s) then butlast xs else xs)
      | Some n \<Rightarrow> n # remove1 n xs)"
proof (cases "map_lookup (nodeMap s) k")
  case None
  let ?s1 = "if cap s \<le> len (nodeMap s) then removeLast s else s"
  let ?ys = "if cap s \<le> len (nodeMap s) then butlast xs else xs"
  have 1: "linked ?s1 ?ys" using assms by (simp add: linked_removeLast)
  have 2: "map_lookup (nodeMap ?s1) k = None" using None by (simp add: map_lookup_removeLast)
  have 3: "fresh ?s1 = fresh s" by simp
  from linked_NewNode_addFirst [OF 1 2, of v] 3 None show ?thesis
    by (simp add: Put_miss_state)
next
  case (Some n)
  then have n: "n \<in> set xs" using assms by (auto dest: linked_nodeMap)
  have "linked (set_Value n v s) xs" using assms by (rule linked_set_Value)
  from linked_touch [OF this n] Some show ?thesis by (simp add: Put_hit_state)
qed

subsection \<open>Walking a linked list reads it back\<close>

lemma walk_succ:
  "distinct ys \<Longrightarrow> \<forall>a\<in>set ys. f (h a) = succ_of ys a \<Longrightarrow> length ys \<le> n \<Longrightarrow>
   walk f n h (first_of ys) = ys"
proof (induction ys arbitrary: n)
  case Nil
  then show ?case by (cases n) simp_all
next
  case (Cons y r)
  then obtain m where n: "n = Suc m" by (cases n) auto
  have "\<forall>a\<in>set r. f (h a) = succ_of r a" using Cons.prems by auto
  then have "walk f m h (first_of r) = r" using Cons n by simp
  then show ?case using Cons.prems n by simp
qed

lemma first_of_snoc: "first_of (ys @ [x]) = (if ys = [] then Some x else first_of ys)"
  by (cases ys) auto

lemma succ_of_snoc: "distinct ys \<Longrightarrow> x \<notin> set ys \<Longrightarrow>
   succ_of (ys @ [x]) a = (if last_of ys = Some a then Some x else succ_of ys a)"
  by (induction ys) (auto simp: first_of_snoc dest: last_of_in)

lemma last_of_snoc [simp]: "last_of (ys @ [x]) = Some x"
  by (induction ys) auto

lemma first_of_rev: "first_of (rev xs) = last_of xs"
  by (induction xs) (auto simp: first_of_snoc)

lemma last_of_rev: "last_of (rev xs) = first_of xs"
  by (cases xs) auto

lemma succ_of_rev: "distinct xs \<Longrightarrow> succ_of (rev xs) a = pred_of xs a"
  by (induction xs) (auto simp: succ_of_snoc last_of_rev)

lemma linked_length: "linked s xs \<Longrightarrow> length xs \<le> fresh s"
proof -
  assume l: "linked s xs"
  then have "set xs \<subseteq> {..<fresh s}" by (auto simp: linked_def)
  then have "card (set xs) \<le> card {..<fresh s}" by (intro card_mono) auto
  with l show ?thesis by (simp add: linked_def distinct_card)
qed

lemma linked_forward: "linked s xs \<Longrightarrow> forward s = xs"
  unfolding forward_def using walk_succ [of xs Next "nodes s" "fresh s"] linked_length [of s xs]
  by (simp add: linked_def)

lemma linked_backward: "linked s xs \<Longrightarrow> backward s = rev xs"
  unfolding backward_def
  using walk_succ [of "rev xs" Pre "nodes s" "fresh s"] linked_length [of s xs]
  by (simp add: linked_def first_of_rev succ_of_rev)

lemma linked_unique: "linked s xs \<Longrightarrow> linked s ys \<Longrightarrow> xs = ys"
  by (metis linked_forward)

section \<open>Every state a run reaches\<close>

lemma run_snoc: "run (cs @ [c]) s = exec c (run cs s)"
  by (simp add: run_def)

lemma linked_New: "linked (NewLRUCache c) []"
  by (simp add: linked_def NewLRUCache_def map_make_def)

lemma linked_exec: "linked s xs \<Longrightarrow> \<exists>ys. linked (exec c s) ys"
  by (cases c) (auto intro: linked_Get linked_Put)

lemma linked_run: "\<exists>xs. linked (run cs (NewLRUCache c)) xs"
proof (induction cs rule: rev_induct)
  case Nil
  show ?case using linked_New by (auto simp: run_def)
next
  case (snoc x xs)
  then show ?case by (auto simp: run_snoc dest: linked_exec)
qed

lemma linked_run_forward: "linked (run cs (NewLRUCache c)) (forward (run cs (NewLRUCache c)))"
  using linked_run [of cs c] by (auto simp: linked_forward)

lemma cap_Get [simp]: "cap (snd (Get k s)) = cap s"
  by (simp add: Get_def Let_def split: option.splits)

lemma cap_Put [simp]: "cap (Put k v s) = cap s"
  by (simp add: Put_def Let_def NewNode_def split: option.splits)

lemma cap_exec [simp]: "cap (exec c s) = cap s"
  by (cases c) simp_all

lemma cap_run [simp]: "cap (run cs (NewLRUCache c)) = c"
  by (induction cs rule: rev_induct) (simp_all add: run_snoc, simp add: run_def NewLRUCache_def)

subsection \<open>The two outcomes of \<^verbatim>\<open>Get\<close>\<close>

lemma Get_hit: "map_lookup (nodeMap s) k = Some n \<Longrightarrow> fst (Get k s) = Value (nodes s n)"
  by (simp add: Get_def Let_def)

lemma Get_miss: "map_lookup (nodeMap s) k = None \<Longrightarrow> Get k s = (nil, s)"
  by (simp add: Get_def)

lemmas run_defs = run_def Put_def Get_def len_def NewLRUCache_def NewNode_def addFirst_def
  remove_def removeLast_def set_Pre_def set_Next_def set_Value_def Let_def
  map_make_def map_lookup_def map_store_def map_delete_def

subsection \<open>The entries of the cache after a call\<close>

lemma linked_entries: "linked s xs \<Longrightarrow> entries s = map (entry_at s) xs"
  by (simp add: entries_def linked_forward)

lemma linked_entries_length: "linked s xs \<Longrightarrow> length (entries s) = length xs"
  by (simp add: linked_entries)

lemma linked_dom: "linked s xs \<Longrightarrow> dom (entry (nodeMap s)) = fst ` set (entries s) - {nan}"
proof -
  assume l: "linked s xs"
  then have "fst ` set (entries s) = (\<lambda>a. Key (nodes s a)) ` set xs"
    by (simp add: linked_entries entry_at_def image_image)
  with l show ?thesis by (simp add: linked_def)
qed

lemma map_remove1_key:
  assumes "linked s xs" "n \<in> set xs" "Key (nodes s n) \<noteq> nan"
    and "\<forall>a\<in>set xs. a \<noteq> n \<longrightarrow> f a = entry_at s a"
  shows "map f (remove1 n xs) = filter (\<lambda>e. fst e \<noteq> Key (nodes s n)) (entries s)"
proof -
  from assms have d: "distinct xs" by (simp add: linked_def)
  have "remove1 n xs = filter (\<lambda>a. a \<noteq> n) xs"
    using d by (simp add: distinct_remove1_removeAll removeAll_filter_not_eq) metis
  moreover have "map f (filter (\<lambda>a. a \<noteq> n) xs) = map (entry_at s) (filter (\<lambda>a. a \<noteq> n) xs)"
    using assms(4) by (intro map_cong) auto
  moreover have "filter (\<lambda>a. a \<noteq> n) xs = filter (\<lambda>a. Key (nodes s a) \<noteq> Key (nodes s n)) xs"
    using linked_Key_inj [OF assms(1) _ assms(2)] assms(3) by (intro filter_cong) auto
  ultimately show ?thesis
    using assms(1) by (simp add: linked_entries filter_map comp_def entry_at_def)
qed

lemma entry_at_touch: "entry_at (addFirst n (remove n s)) a = entry_at s a"
  by (simp add: entry_at_def)

lemma entry_at_removeLast [simp]: "entry_at (removeLast s) = entry_at s"
  by (simp add: fun_eq_iff entry_at_def)

lemma entries_Get_hit:
  assumes "linked s xs" "map_lookup (nodeMap s) k = Some n"
  shows "entries (snd (Get k s)) = (k, Value (nodes s n)) # filter (\<lambda>e. fst e \<noteq> k) (entries s)"
proof -
  from assms have n: "n \<in> set xs" "Key (nodes s n) = k" "k \<noteq> nan"
    by (auto dest: linked_nodeMap)
  let ?t = "addFirst n (remove n s)"
  have g: "snd (Get k s) = ?t" using assms(2) by (rule Get_hit_state)
  have "linked ?t (n # remove1 n xs)" using assms(1) n(1) by (rule linked_touch)
  then have "entries ?t = map (entry_at ?t) (n # remove1 n xs)" by (rule linked_entries)
  also have "\<dots> = map (entry_at s) (n # remove1 n xs)" by (simp add: entry_at_touch)
  also have "\<dots> = entry_at s n # filter (\<lambda>e. fst e \<noteq> k) (entries s)"
    using map_remove1_key [OF assms(1) n(1), of "entry_at s"] n(2,3) by simp
  finally show ?thesis using g n(2) by (simp add: entry_at_def)
qed

lemma entries_Put_hit:
  assumes "linked s xs" "map_lookup (nodeMap s) k = Some n"
  shows "entries (Put k v s) = (k, v) # filter (\<lambda>e. fst e \<noteq> k) (entries s)"
proof -
  from assms have n: "n \<in> set xs" "Key (nodes s n) = k" "k \<noteq> nan"
    by (auto dest: linked_nodeMap)
  let ?t = "addFirst n (remove n (set_Value n v s))"
  have p: "Put k v s = ?t" using assms(2) by (rule Put_hit_state)
  have "linked (Put k v s) (n # remove1 n xs)"
    using linked_Put [OF assms(1), of k v] assms(2) by simp
  then have "entries (Put k v s) = map (entry_at (Put k v s)) (n # remove1 n xs)"
    by (rule linked_entries)
  moreover have "\<forall>a\<in>set xs. a \<noteq> n \<longrightarrow> entry_at ?t a = entry_at s a"
    by (simp add: entry_at_def)
  ultimately show ?thesis
    using map_remove1_key [OF assms(1) n(1), of "entry_at ?t"] n p
    by simp (simp add: entry_at_def)
qed

lemma entries_Put_miss:
  assumes "linked s xs" "map_lookup (nodeMap s) k = None"
  shows "entries (Put k v s) =
    (k, v) # (if cap s \<le> len (nodeMap s) then butlast (entries s) else entries s)"
proof -
  let ?s1 = "if cap s \<le> len (nodeMap s) then removeLast s else s"
  let ?ys = "if cap s \<le> len (nodeMap s) then butlast xs else xs"
  have p: "Put k v s = addFirst (fresh s) (snd (NewNode k v ?s1))"
    using assms(2) by (rule Put_miss_state)
  have "linked (Put k v s) (fresh s # ?ys)"
    using linked_Put [OF assms(1), of k v] assms(2) by simp
  then have e: "entries (Put k v s) = map (entry_at (Put k v s)) (fresh s # ?ys)"
    by (rule linked_entries)
  have new: "entry_at (Put k v s) (fresh s) = (k, v)"
    unfolding p by (simp add: entry_at_def)
  have "\<And>a. a \<in> set xs \<Longrightarrow> a \<noteq> fresh s" using assms(1) by (auto simp: linked_def)
  then have old: "\<And>a. a \<in> set xs \<Longrightarrow> entry_at (Put k v s) a = entry_at s a"
    unfolding p by (simp add: entry_at_def)
  have "set ?ys \<subseteq> set xs" by (auto dest: in_set_butlastD)
  then have "map (entry_at (Put k v s)) ?ys = map (entry_at s) ?ys"
    using old by (intro map_cong) auto
  with e new show ?thesis using assms(1) by (simp add: linked_entries map_butlast)
qed

lemma Put_present:
  assumes "linked s xs" "k \<noteq> nan"
  shows "\<exists>m. map_lookup (nodeMap (Put k v s)) k = Some m \<and> Value (nodes (Put k v s) m) = v"
proof (cases "map_lookup (nodeMap s) k")
  case None
  show ?thesis
    unfolding Put_miss_state [OF None] using assms(2)
    by (simp add: nodeMap_addFirst map_lookup_def)
next
  case (Some n)
  with assms(1) have "Key (nodes s n) = k" by (auto dest: linked_nodeMap)
  then show ?thesis
    unfolding Put_hit_state [OF Some] using assms(2)
    by (simp add: nodeMap_addFirst map_lookup_def)
qed

lemma Put_Get: "linked s xs \<Longrightarrow> k \<noteq> nan \<Longrightarrow> fst (Get k (Put k v s)) = v"
  using Put_present [of s xs k v] by (auto simp: Get_hit)

subsection \<open>Runs that put no key unequal to itself\<close>

lemma comparable_New: "comparable (NewLRUCache c) []"
  using linked_New [of c] by (simp add: comparable_def NewLRUCache_def map_make_def)

lemma nan_entries_removeLast [simp]:
  "nan_entries (nodeMap (removeLast s)) = nan_entries (nodeMap s)"
  by (cases "tail s") (simp_all add: removeLast_empty nodeMap_removeLast)

lemma comparable_Get:
  assumes "comparable s xs"
  shows "comparable (snd (Get k s))
     (case map_lookup (nodeMap s) k of None \<Rightarrow> xs | Some n \<Rightarrow> n # remove1 n xs)"
proof (cases "map_lookup (nodeMap s) k")
  case None
  with assms show ?thesis by (simp add: Get_miss)
next
  case (Some n)
  from assms have l: "linked s xs" by (simp add: comparable_def)
  from l Some have n: "n \<in> set xs" "Key (nodes s n) = k" "k \<noteq> nan"
    by (auto dest: linked_nodeMap)
  have "linked (snd (Get k s)) (n # remove1 n xs)" using linked_Get [OF l, of k] Some by simp
  moreover have "nan_entries (nodeMap (snd (Get k s))) = []"
    using assms n by (simp add: Get_hit_state [OF Some] nodeMap_addFirst nodeMap_remove
        comparable_def)
  moreover have "\<forall>a\<in>set (n # remove1 n xs). Key (nodes (snd (Get k s)) a) \<noteq> nan"
    using assms n by (auto simp: Get_hit_state [OF Some] comparable_def dest: notin_set_remove1)
  ultimately show ?thesis using Some by (simp add: comparable_def)
qed

lemma comparable_Put:
  assumes "comparable s xs" "k \<noteq> nan"
  shows "comparable (Put k v s)
     (case map_lookup (nodeMap s) k of
        None \<Rightarrow> fresh s # (if cap s \<le> len (nodeMap s) then butlast xs else xs)
      | Some n \<Rightarrow> n # remove1 n xs)"
proof (cases "map_lookup (nodeMap s) k")
  case None
  from assms have l: "linked s xs" by (simp add: comparable_def)
  let ?ys = "if cap s \<le> len (nodeMap s) then butlast xs else xs"
  have "\<And>a. a \<in> set xs \<Longrightarrow> a \<noteq> fresh s" using l by (auto simp: linked_def)
  moreover have "set ?ys \<subseteq> set xs" by (auto dest: in_set_butlastD)
  ultimately have "\<forall>a\<in>set (fresh s # ?ys). Key (nodes (Put k v s) a) \<noteq> nan"
    using assms by (auto simp: Put_miss_state [OF None] comparable_def)
  moreover have "linked (Put k v s) (fresh s # ?ys)" using linked_Put [OF l, of k v] None by simp
  moreover have "nan_entries (nodeMap (Put k v s)) = []"
    using assms by (simp add: Put_miss_state [OF None] nodeMap_addFirst comparable_def)
  ultimately show ?thesis using None by (simp add: comparable_def)
next
  case (Some n)
  from assms have l: "linked s xs" by (simp add: comparable_def)
  from l Some have n: "n \<in> set xs" "Key (nodes s n) = k" by (auto dest: linked_nodeMap)
  have "linked (Put k v s) (n # remove1 n xs)" using linked_Put [OF l, of k v] Some by simp
  moreover have "nan_entries (nodeMap (Put k v s)) = []"
    using assms n by (simp add: Put_hit_state [OF Some] nodeMap_addFirst nodeMap_remove
        comparable_def)
  moreover have "\<forall>a\<in>set (n # remove1 n xs). Key (nodes (Put k v s) a) \<noteq> nan"
    using assms n by (auto simp: Put_hit_state [OF Some] comparable_def dest: notin_set_remove1)
  ultimately show ?thesis using Some by (simp add: comparable_def)
qed

lemma comparable_exec:
  "comparable s xs \<Longrightarrow> put_comparable c \<Longrightarrow> \<exists>ys. comparable (exec c s) ys"
  by (cases c) (auto intro: comparable_Get comparable_Put)

lemma comparable_run:
  "\<forall>c\<in>set cs. put_comparable c \<Longrightarrow> \<exists>xs. comparable (run cs (NewLRUCache c)) xs"
proof (induction cs rule: rev_induct)
  case Nil
  show ?case using comparable_New by (auto simp: run_def)
next
  case (snoc x xs)
  then show ?case by (auto simp: run_snoc dest: comparable_exec)
qed

lemma comparable_run_forward:
  assumes "\<forall>c\<in>set cs. put_comparable c"
  shows "comparable (run cs (NewLRUCache c)) (forward (run cs (NewLRUCache c)))"
proof -
  from comparable_run [OF assms] obtain xs where "comparable (run cs (NewLRUCache c)) xs" ..
  moreover from this have "forward (run cs (NewLRUCache c)) = xs"
    by (simp add: comparable_def linked_forward)
  ultimately show ?thesis by simp
qed

lemma comparable_dom: "comparable s xs \<Longrightarrow> dom (entry (nodeMap s)) = fst ` set (entries s)"
proof -
  assume c: "comparable s xs"
  then have l: "linked s xs" by (simp add: comparable_def)
  have "nan \<notin> fst ` set (entries s)"
    using c by (auto simp: linked_entries [OF l] entry_at_def comparable_def)
  with linked_dom [OF l] show ?thesis by simp
qed

lemma comparable_distinct_keys: "comparable s xs \<Longrightarrow> distinct (map fst (entries s))"
proof -
  assume c: "comparable s xs"
  then have l: "linked s xs" by (simp add: comparable_def)
  have "inj_on (\<lambda>a. Key (nodes s a)) (set xs)"
    using c by (auto intro!: inj_onI dest: linked_Key_inj [OF l] simp: comparable_def)
  moreover have "map fst (entries s) = map (\<lambda>a. Key (nodes s a)) xs"
    using l by (simp add: linked_entries entry_at_def)
  ultimately show ?thesis using l by (simp add: distinct_map linked_def)
qed

lemma comparable_len: "comparable s xs \<Longrightarrow> len (nodeMap s) = int (length xs)"
proof -
  assume c: "comparable s xs"
  then have l: "linked s xs" by (simp add: comparable_def)
  have "card (dom (entry (nodeMap s))) = card (set (map fst (entries s)))"
    using comparable_dom [OF c] by simp
  also have "\<dots> = length (map fst (entries s))"
    using comparable_distinct_keys [OF c] by (rule distinct_card)
  finally show ?thesis using c by (simp add: len_def comparable_def linked_entries_length [OF l])
qed

lemma length_touch: "n \<in> set xs \<Longrightarrow> length (n # remove1 n xs) = length xs"
  using length_pos_if_in_set [of n xs] by (simp add: length_remove1)

lemma len_exec_bound:
  assumes "comparable s xs" "put_comparable c" "len (nodeMap s) \<le> max 1 (cap s)"
  shows "len (nodeMap (exec c s)) \<le> max 1 (cap s)"
proof (cases c)
  case (CallGet k)
  show ?thesis
  proof (cases "map_lookup (nodeMap s) k")
    case None
    with CallGet assms show ?thesis by (simp add: Get_miss)
  next
    case (Some n)
    then have n: "n \<in> set xs" using assms(1) by (auto simp: comparable_def dest: linked_nodeMap)
    have "comparable (snd (Get k s)) (n # remove1 n xs)"
      using comparable_Get [OF assms(1), of k] Some by simp
    then have "len (nodeMap (snd (Get k s))) = int (length (n # remove1 n xs))"
      by (rule comparable_len)
    with assms CallGet show ?thesis by (simp only: length_touch [OF n] comparable_len exec.simps)
  qed
next
  case (CallPut k v)
  with assms(2) have k: "k \<noteq> nan" by simp
  show ?thesis
  proof (cases "map_lookup (nodeMap s) k")
    case None
    let ?ys = "if cap s \<le> len (nodeMap s) then butlast xs else xs"
    have "comparable (Put k v s) (fresh s # ?ys)"
      using comparable_Put [OF assms(1) k, of v] None by simp
    then have "len (nodeMap (Put k v s)) = int (length (fresh s # ?ys))"
      by (rule comparable_len)
    with assms CallPut show ?thesis by (auto simp: comparable_len)
  next
    case (Some n)
    then have n: "n \<in> set xs" using assms(1) by (auto simp: comparable_def dest: linked_nodeMap)
    have "comparable (Put k v s) (n # remove1 n xs)"
      using comparable_Put [OF assms(1) k, of v] Some by simp
    then have "len (nodeMap (Put k v s)) = int (length (n # remove1 n xs))"
      by (rule comparable_len)
    with assms CallPut show ?thesis by (simp only: length_touch [OF n] comparable_len exec.simps)
  qed
qed

lemma len_run_bound:
  "\<forall>c\<in>set cs. put_comparable c \<Longrightarrow> len (nodeMap (run cs (NewLRUCache c))) \<le> max 1 c"
proof (induction cs rule: rev_induct)
  case Nil
  show ?case by (simp add: run_def NewLRUCache_def len_def map_make_def)
next
  case (snoc x xs)
  then have a: "\<forall>c\<in>set xs. put_comparable c" and x: "put_comparable x" by simp_all
  from len_exec_bound [OF comparable_run_forward [OF a] x, of c] snoc.IH [OF a] show ?case
    by (simp add: run_snoc)
qed

lemma comparable_run_len:
  "\<forall>c\<in>set cs. put_comparable c \<Longrightarrow>
   len (nodeMap (run cs (NewLRUCache c))) = int (length (entries (run cs (NewLRUCache c))))"
  using comparable_len [OF comparable_run_forward, of cs c]
    linked_entries_length [OF linked_run_forward, of cs c]
  by simp

subsection \<open>The list is in the order of the latest calls\<close>

lemma last_touch_snoc:
  "last_touch (ks @ [k]) k' = (if k' = k then Suc (length ks) else last_touch ks k')"
  by (simp add: last_touch_def)

lemma last_touch_le: "last_touch ks k \<le> length ks"
  unfolding last_touch_def using length_dropWhile_le [of "\<lambda>x. x \<noteq> k" "rev ks"] by simp

lemma last_touch_pos: "k \<in> set ks \<Longrightarrow> 0 < last_touch ks k"
  by (auto simp: last_touch_def)

lemma by_recency_step:
  assumes "by_recency ks K"
  shows "by_recency (ks @ [k]) (k # filter (\<lambda>x. x \<noteq> k) (take m K))"
proof -
  let ?K = "filter (\<lambda>x. x \<noteq> k) (take m K)"
  have "sorted_wrt (\<lambda>a b. last_touch ks b < last_touch ks a) ?K"
    using assms by (simp add: by_recency_def sorted_wrt_filter)
  then have "sorted_wrt (\<lambda>a b. last_touch (ks @ [k]) b < last_touch (ks @ [k]) a) ?K"
    by (rule sorted_wrt_mono_rel [rotated]) (auto simp: last_touch_snoc)
  moreover have "\<forall>b\<in>set ?K. last_touch (ks @ [k]) b < last_touch (ks @ [k]) k"
    using last_touch_le [of ks] by (auto simp: last_touch_snoc less_Suc_eq_le)
  moreover have "set ?K \<subseteq> set ks" using assms by (auto simp: by_recency_def dest: in_set_takeD)
  ultimately show ?thesis by (auto simp: by_recency_def)
qed

lemma by_recency_miss:
  assumes "by_recency ks K" "k \<notin> set K"
  shows "by_recency (ks @ [k]) K"
proof -
  from assms(1) have "sorted_wrt (\<lambda>a b. last_touch ks b < last_touch ks a) K"
    by (simp add: by_recency_def)
  then have "sorted_wrt (\<lambda>a b. last_touch (ks @ [k]) b < last_touch (ks @ [k]) a) K"
    by (rule sorted_wrt_mono_rel [rotated]) (use assms(2) in \<open>auto simp: last_touch_snoc\<close>)
  with assms show ?thesis by (auto simp: by_recency_def)
qed

lemma keys_filter: "map fst (filter (\<lambda>e. fst e \<noteq> k) es) = filter (\<lambda>x. x \<noteq> k) (map fst es)"
  by (induction es) auto

lemma comparable_miss_key:
  assumes "comparable s xs" "map_lookup (nodeMap s) k = None"
  shows "k \<notin> set (map fst (entries s))"
proof (cases "k = nan")
  case True
  from assms(1) have l: "linked s xs" by (simp add: comparable_def)
  show ?thesis using assms(1) True
    by (auto simp: linked_entries [OF l] entry_at_def comparable_def)
next
  case False
  with assms(2) have "k \<notin> dom (entry (nodeMap s))" by (auto simp: map_lookup_def)
  with comparable_dom [OF assms(1)] show ?thesis by simp
qed

lemma by_recency_exec:
  assumes "comparable s xs" "by_recency ks (map fst (entries s))"
  shows "by_recency (ks @ [key_of c]) (map fst (entries (exec c s)))"
proof -
  let ?K = "map fst (entries s)"
  from assms(1) have l: "linked s xs" by (simp add: comparable_def)
  show ?thesis
  proof (cases c)
    case (CallGet k)
    show ?thesis
    proof (cases "map_lookup (nodeMap s) k")
      case None
      then have "k \<notin> set ?K" using assms(1) by (rule comparable_miss_key [rotated])
      with assms(2) CallGet None show ?thesis by (simp add: Get_miss by_recency_miss)
    next
      case (Some n)
      from by_recency_step [OF assms(2), of k "length ?K"] CallGet
        entries_Get_hit [OF l Some]
      show ?thesis by (simp add: keys_filter)
    qed
  next
    case (CallPut k v)
    show ?thesis
    proof (cases "map_lookup (nodeMap s) k")
      case None
      then have k: "k \<notin> set ?K" using assms(1) by (rule comparable_miss_key [rotated])
      have f: "filter (\<lambda>x. x \<noteq> k) (take m ?K) = take m ?K" for m
        using k by (intro filter_True) (auto dest: in_set_takeD)
      have a: "by_recency (ks @ [k]) (k # ?K)"
        using by_recency_step [OF assms(2), of k "length ?K"] f [of "length ?K"] by simp
      have b: "by_recency (ks @ [k]) (k # butlast ?K)"
        using by_recency_step [OF assms(2), of k "length ?K - 1"] f [of "length ?K - 1"]
        by (simp only: butlast_conv_take)
      from a b CallPut entries_Put_miss [OF l None, of v]
      show ?thesis by (simp add: map_butlast)
    next
      case (Some n)
      from by_recency_step [OF assms(2), of k "length ?K"] CallPut
        entries_Put_hit [OF l Some, of v]
      show ?thesis by (simp add: keys_filter)
    qed
  qed
qed

lemma entries_New [simp]: "entries (NewLRUCache c) = []"
  by (simp add: entries_def forward_def NewLRUCache_def)

lemma by_recency_run:
  "\<forall>c\<in>set cs. put_comparable c \<Longrightarrow>
   by_recency (map key_of cs) (map fst (entries (run cs (NewLRUCache c))))"
proof (induction cs rule: rev_induct)
  case Nil
  show ?case by (simp add: run_def by_recency_def)
next
  case (snoc x xs)
  then have a: "\<forall>c\<in>set xs. put_comparable c" by simp
  from by_recency_exec [OF comparable_run_forward [OF a] snoc.IH [OF a], of x]
  show ?case by (simp add: run_snoc)
qed

lemma sorted_wrt_last:
  assumes "sorted_wrt R K" "K \<noteq> []" "a \<in> set K" "a \<noteq> last K"
  shows "R a (last K)"
proof -
  from assms(2) have K: "butlast K @ [last K] = K" by simp
  from assms(1) have "sorted_wrt R (butlast K @ [last K])" by (simp only: K)
  then have "\<forall>x\<in>set (butlast K). R x (last K)" by (simp add: sorted_wrt_append)
  moreover have "set K = insert (last K) (set (butlast K))"
    using arg_cong [OF K, of set] by simp
  ultimately show ?thesis using assms(3,4) by auto
qed

lemma nodeMap_touch:
  "map_lookup (nodeMap s) (Key (nodes s n)) = Some n \<Longrightarrow>
   nodeMap (addFirst n (remove n s)) = nodeMap s"
  by (simp add: nodeMap_addFirst nodeMap_remove map_lookup_Some map_store_delete)

lemma stored_cong:
  "nodeMap t = nodeMap s \<Longrightarrow> (\<And>a. Value (nodes t a) = Value (nodes s a)) \<Longrightarrow> stored t = stored s"
  by (simp add: stored_def fun_eq_iff)

lemma set_entries_touch:
  assumes "linked s xs" "n \<in> set xs"
  shows "set (entries (addFirst n (remove n s))) = set (entries s)"
proof -
  let ?t = "addFirst n (remove n s)"
  from assms have d: "distinct xs" by (simp add: linked_def)
  have "linked ?t (n # remove1 n xs)" using assms by (rule linked_touch)
  then have "entries ?t = map (entry_at ?t) (n # remove1 n xs)" by (rule linked_entries)
  then have "set (entries ?t) = entry_at s ` set (n # remove1 n xs)"
    by (simp add: entry_at_touch)
  also have "set (n # remove1 n xs) = set xs" using assms(2) d by auto
  finally show ?thesis using assms(1) by (simp add: linked_entries)
qed

subsection \<open>The number of entries after \<^verbatim>\<open>remove\<close>\<close>

lemma finite_dom_linked: "linked s xs \<Longrightarrow> finite (dom (entry (nodeMap s)))"
  by (simp add: linked_def)

lemma len_remove:
  assumes "linked s xs" "n \<in> set xs"
  shows "len (nodeMap (remove n s)) = len (nodeMap s) - (if Key (nodes s n) = nan then 0 else 1)"
proof (cases "Key (nodes s n) = nan")
  case True
  then show ?thesis by (simp add: nodeMap_remove map_delete_def)
next
  case False
  let ?k = "Key (nodes s n)"
  have "entry (nodeMap s) ?k = Some n" using assms False by (simp add: linked_def)
  then have k: "?k \<in> dom (entry (nodeMap s))" by blast
  have f: "finite (dom (entry (nodeMap s)))" using assms(1) by (rule finite_dom_linked)
  from f k have "card (dom (entry (nodeMap s)) - {?k}) = card (dom (entry (nodeMap s))) - 1"
    by simp
  moreover from f k have "0 < card (dom (entry (nodeMap s)))"
    by (metis card_gt_0_iff empty_iff)
  ultimately show ?thesis using False by (simp add: nodeMap_remove len_def)
qed

section \<open>The claims\<close>

subsection \<open>Capacity\<close>

text \<open>
  C1, as amended: for every capacity \<open>c \<ge> 1\<close> and every sequence of \<^verbatim>\<open>Get\<close> and \<^verbatim>\<open>Put\<close>
  calls in which no \<^verbatim>\<open>Put\<close> is on a key that is unequal to itself, on a cache made by
  \<^verbatim>\<open>NewLRUCache c\<close>, after every call of the sequence the map holds at most \<open>c\<close>
  entries (and the list at most \<open>c\<close> nodes).
\<close>

theorem capacity_invariant:
  assumes "1 \<le> c" and "\<forall>call\<in>set cs. put_comparable call"
  shows "\<forall>i\<le>length cs.
           len (nodeMap (run (take i cs) (NewLRUCache c))) \<le> c \<and>
           int (length (entries (run (take i cs) (NewLRUCache c)))) \<le> c"
proof (intro allI impI)
  fix i
  have p: "\<forall>call\<in>set (take i cs). put_comparable call"
    using assms(2) by (auto dest: in_set_takeD)
  have "len (nodeMap (run (take i cs) (NewLRUCache c))) \<le> max 1 c"
    using p by (rule len_run_bound)
  with assms(1) comparable_run_len [OF p, of c]
  show "len (nodeMap (run (take i cs) (NewLRUCache c))) \<le> c \<and>
        int (length (entries (run (take i cs) (NewLRUCache c)))) \<le> c"
    by simp
qed

theorem capacity_invariant_witness:
  "(1::int) \<le> 2 \<and>
   len (nodeMap (run (take 4 [CallPut (boxed (1::int)) (boxed (1::int)),
         CallPut (boxed 2) (boxed 2), CallGet nan, CallPut (boxed 3) (boxed 3)])
         (NewLRUCache 2))) \<le> 2 \<and>
   int (length (entries (run (take 4 [CallPut (boxed (1::int)) (boxed (1::int)),
         CallPut (boxed 2) (boxed 2), CallGet nan, CallPut (boxed 3) (boxed 3)])
         (NewLRUCache 2)))) \<le> 2"
proof -
  let ?cs = "[CallPut (boxed (1::int)) (boxed (1::int)),
         CallPut (boxed 2) (boxed 2), CallGet nan, CallPut (boxed 3) (boxed 3)]"
  have h: "(1::int) \<le> 2" by simp
  have p: "\<forall>call\<in>set ?cs. put_comparable call" by simp
  have i: "4 \<le> length ?cs" by simp
  from capacity_invariant [OF h p, rule_format, OF i] h show ?thesis by blast
qed

text \<open>
  The claim as the specification words it fails: three \<^verbatim>\<open>Put\<close>s on a key that is unequal
  to itself leave three entries in the map of a cache of capacity 2. No lookup finds the
  key, so every \<^verbatim>\<open>Put\<close> adds an entry, and the \<^verbatim>\<open>delete\<close> in \<^verbatim>\<open>removeLast\<close> removes none.
\<close>

theorem capacity_exceeded_by_nan_keys:
  "(1::int) \<le> 2 \<and>
   len (nodeMap (run [CallPut nan (boxed (1::int)), CallPut nan (boxed 2), CallPut nan (boxed 3)]
     (NewLRUCache 2 :: (int, int) LRUCache))) = 3 \<and>
   \<not> len (nodeMap (run [CallPut nan (boxed (1::int)), CallPut nan (boxed 2), CallPut nan (boxed 3)]
     (NewLRUCache 2 :: (int, int) LRUCache))) \<le> 2"
  by (simp add: run_defs)

text \<open>
  C4, as amended: \<^verbatim>\<open>NewLRUCache\<close> checks nothing. For every \<open>c < 1\<close> it returns an empty
  cache with \<open>cap = c\<close>, which works afterwards: in every sequence of calls with no
  \<^verbatim>\<open>Put\<close> on a key unequal to itself the map holds at most one entry after every call, and
  a \<^verbatim>\<open>Put\<close> on a key equal to itself followed by a \<^verbatim>\<open>Get\<close> of it returns the value put.
\<close>

theorem NewLRUCache_nonpositive:
  assumes "c < 1" and "\<forall>call\<in>set cs. put_comparable call" and "k \<noteq> nan"
  shows "cap (NewLRUCache c :: ('k, 'v) LRUCache) = c \<and>
         entries (NewLRUCache c :: ('k, 'v) LRUCache) = [] \<and>
         fst (Get k (Put k v (run cs (NewLRUCache c :: ('k, 'v) LRUCache)))) = v \<and>
         len (nodeMap (run cs (NewLRUCache c :: ('k, 'v) LRUCache))) \<le> 1"
proof -
  have "len (nodeMap (run cs (NewLRUCache c :: ('k, 'v) LRUCache))) \<le> max 1 c"
    using assms(2) by (rule len_run_bound)
  with assms(1) have "len (nodeMap (run cs (NewLRUCache c :: ('k, 'v) LRUCache))) \<le> 1" by simp
  moreover have "fst (Get k (Put k v (run cs (NewLRUCache c)))) = v"
    using linked_run_forward assms(3) by (rule Put_Get)
  moreover have "cap (NewLRUCache c :: ('k, 'v) LRUCache) = c"
    by (simp add: NewLRUCache_def)
  ultimately show ?thesis by simp
qed

theorem NewLRUCache_nonpositive_witness:
  "(0::int) < 1 \<and> cap (NewLRUCache 0 :: (int, int) LRUCache) = 0 \<and>
   fst (Get (boxed (2::int))
     (Put (boxed 2) (boxed (5::int)) (run [CallPut (boxed 1) (boxed 4)] (NewLRUCache 0)))) = boxed 5 \<and>
   len (nodeMap (run [CallPut (boxed (1::int)) (boxed (4::int)), CallPut (boxed 2) (boxed 5)]
     (NewLRUCache 0))) \<le> 1"
proof -
  have h: "(0::int) < 1" by simp
  have k: "boxed (2::int) \<noteq> nan" by simp
  have p1: "\<forall>call\<in>set [CallPut (boxed (1::int)) (boxed (4::int))]. put_comparable call" by simp
  have p2: "\<forall>call\<in>set [CallPut (boxed (1::int)) (boxed (4::int)), CallPut (boxed 2) (boxed 5)].
      put_comparable call" by simp
  from NewLRUCache_nonpositive [OF h p1 k, of "boxed (5::int)"]
    NewLRUCache_nonpositive [OF h p2 k, of "boxed (5::int)"] h
  show ?thesis by blast
qed

text \<open>
  The claim as the specification words it fails: \<^verbatim>\<open>NewLRUCache\<close> with the capacities 0
  and -3 returns a cache that stores the capacity and serves a \<^verbatim>\<open>Put\<close> and a \<^verbatim>\<open>Get\<close>.
\<close>

theorem NewLRUCache_accepts_nonpositive:
  "cap (NewLRUCache 0 :: (int, int) LRUCache) = 0 \<and>
   fst (Get (boxed (1::int)) (Put (boxed 1) (boxed (7::int)) (NewLRUCache 0))) = boxed 7 \<and>
   cap (NewLRUCache (- 3) :: (int, int) LRUCache) = - 3 \<and>
   fst (Get (boxed (1::int)) (Put (boxed 1) (boxed (7::int)) (NewLRUCache (- 3)))) = boxed 7"
  by (simp add: run_defs)

subsection \<open>Eviction\<close>

text \<open>
  C2, as amended: for every capacity \<open>c \<ge> 1\<close> and every sequence of calls in which no
  \<^verbatim>\<open>Put\<close> is on a key unequal to itself, when the cache holds exactly \<open>c\<close> keys and
  \<^verbatim>\<open>Put\<close> is called on such a key that is not stored, exactly one key \<open>e\<close> leaves the
  map: the key at the back of the list, which was touched by a call, and whose latest call
  is older than the latest call on every other stored key. It leaves in \<^verbatim>\<open>removeLast\<close>,
  which runs before the new node is made and pushed: between the two the cache holds
  \<open>c - 1\<close> keys.
\<close>

theorem eviction_least_recently_touched:
  assumes "1 \<le> c" and "s = run cs (NewLRUCache c)"
    and "\<forall>call\<in>set cs. put_comparable call" and "k \<noteq> nan"
    and "map_lookup (nodeMap s) k = None" and "len (nodeMap s) = c"
  shows "\<exists>e. e \<in> dom (entry (nodeMap s)) \<and> e = fst (last (entries s)) \<and>
           0 < last_touch (map key_of cs) e \<and>
           (\<forall>k'\<in>dom (entry (nodeMap s)). k' \<noteq> e \<longrightarrow>
              last_touch (map key_of cs) e < last_touch (map key_of cs) k') \<and>
           dom (entry (nodeMap (removeLast s))) = dom (entry (nodeMap s)) - {e} \<and>
           len (nodeMap (removeLast s)) = c - 1 \<and>
           Put k v s = addFirst (fresh s) (snd (NewNode k v (removeLast s))) \<and>
           dom (entry (nodeMap (Put k v s))) = insert k (dom (entry (nodeMap s)) - {e}) \<and>
           entries (Put k v s) = (k, v) # butlast (entries s)"
proof -
  let ?xs = "forward s"
  let ?K = "map fst (entries s)"
  let ?e = "fst (last (entries s))"
  let ?lt = "last_touch (map key_of cs)"
  have cs: "comparable s ?xs" unfolding assms(2) using assms(3) by (rule comparable_run_forward)
  then have l: "linked s ?xs" by (simp add: comparable_def)
  have cap: "cap s = c" unfolding assms(2) by simp
  have full: "cap s \<le> len (nodeMap s)" using cap assms(6) by simp
  have n: "length (entries s) = nat c" "entries s \<noteq> []"
    using comparable_len [OF cs] linked_entries_length [OF l] assms(1,6) by auto
  have dom: "dom (entry (nodeMap s)) = set ?K" using comparable_dom [OF cs] by simp
  have dK: "distinct ?K" using cs by (rule comparable_distinct_keys)
  have rec: "by_recency (map key_of cs) ?K" unfolding assms(2) using assms(3) by (rule by_recency_run)
  have eK: "?e = last ?K" using n(2) by (simp add: last_map)
  have 1: "?e \<in> dom (entry (nodeMap s))" using dom n(2) by simp
  have "?e \<in> set (map key_of cs)" using rec 1 dom unfolding by_recency_def by blast
  then have 2: "0 < ?lt ?e" by (rule last_touch_pos)
  have 3: "\<forall>k'\<in>dom (entry (nodeMap s)). k' \<noteq> ?e \<longrightarrow> ?lt ?e < ?lt k'"
  proof (intro ballI impI)
    fix k' assume "k' \<in> dom (entry (nodeMap s))" "k' \<noteq> ?e"
    with dom eK have "k' \<in> set ?K" "k' \<noteq> last ?K" by simp_all
    with sorted_wrt_last [of "\<lambda>a b. ?lt b < ?lt a" ?K k'] rec n(2)
    show "?lt ?e < ?lt k'" by (simp add: by_recency_def eK)
  qed
  have lr: "linked (removeLast s) (butlast ?xs)" using l by (rule linked_removeLast)
  have er: "entries (removeLast s) = butlast (entries s)"
    using linked_entries [OF lr] linked_entries [OF l] by (simp add: map_butlast)
  have B: "set (map fst (butlast (entries s))) = set ?K - {?e}"
  proof -
    let ?B = "map fst (butlast (entries s))"
    have "butlast (entries s) @ [last (entries s)] = entries s" using n(2) by simp
    from arg_cong [OF this, of "map fst"] have K: "?B @ [?e] = ?K" by simp
    from dK have "distinct (?B @ [?e])" by (simp only: K)
    then have "?e \<notin> set ?B" by simp
    moreover have "set ?K = insert ?e (set ?B)" using arg_cong [OF K, of set] by simp
    ultimately show ?thesis by auto
  qed
  have nn: "nan \<notin> set ?K" using dom by (auto simp: linked_dom [OF l])
  have 4: "dom (entry (nodeMap (removeLast s))) = dom (entry (nodeMap s)) - {?e}"
    using linked_dom [OF lr] er dom B nn by auto
  have "card (set ?K - {?e}) = card (set ?K) - 1" using 1 dom by simp
  then have 5: "len (nodeMap (removeLast s)) = c - 1"
    using 4 cs assms(1,6) dom by (simp add: len_def comparable_def)
  have 6: "Put k v s = addFirst (fresh s) (snd (NewNode k v (removeLast s)))"
    using Put_miss_state [OF assms(5), of v] full by simp
  have 8: "entries (Put k v s) = (k, v) # butlast (entries s)"
    using entries_Put_miss [OF l assms(5), of v] full by simp
  obtain ys where ys: "linked (Put k v s) ys" using linked_Put [OF l] by blast
  have 7: "dom (entry (nodeMap (Put k v s))) = insert k (dom (entry (nodeMap s)) - {?e})"
    using linked_dom [OF ys] 8 B dom nn assms(4) by auto
  from 1 2 3 4 5 6 7 8 show ?thesis by blast
qed

theorem eviction_least_recently_touched_witness:
  "(1::int) \<le> 2 \<and> boxed (3::int) \<noteq> nan \<and>
   map_lookup (nodeMap (run [CallPut (boxed (1::int)) (boxed (4::int)), CallPut (boxed 2) (boxed 5),
     CallGet (boxed 1)] (NewLRUCache 2))) (boxed 3) = None \<and>
   len (nodeMap (run [CallPut (boxed (1::int)) (boxed (4::int)), CallPut (boxed 2) (boxed 5),
     CallGet (boxed 1)] (NewLRUCache 2))) = 2 \<and>
   entries (run [CallPut (boxed (1::int)) (boxed (4::int)), CallPut (boxed 2) (boxed 5),
     CallGet (boxed 1)] (NewLRUCache 2)) = [(boxed 1, boxed 4), (boxed 2, boxed 5)] \<and>
   last_touch (map key_of [CallPut (boxed (1::int)) (boxed (4::int)), CallPut (boxed 2) (boxed 5),
     CallGet (boxed 1)]) (boxed 2)
   < last_touch (map key_of [CallPut (boxed (1::int)) (boxed (4::int)), CallPut (boxed 2) (boxed 5),
     CallGet (boxed 1)]) (boxed 1) \<and>
   entries (Put (boxed 3) (boxed 6) (run [CallPut (boxed (1::int)) (boxed (4::int)),
     CallPut (boxed 2) (boxed 5), CallGet (boxed 1)] (NewLRUCache 2)))
   = [(boxed 3, boxed 6), (boxed 1, boxed 4)]"
proof -
  let ?cs = "[CallPut (boxed (1::int)) (boxed (4::int)), CallPut (boxed 2) (boxed 5),
     CallGet (boxed 1)]"
  let ?s = "run ?cs (NewLRUCache 2)"
  have h: "(1::int) \<le> 2" by simp
  have p: "\<forall>call\<in>set ?cs. put_comparable call" by simp
  have k: "boxed (3::int) \<noteq> nan" by simp
  have 1: "map_lookup (nodeMap ?s) (boxed 3) = None" by (simp add: run_defs)
  have 2: "len (nodeMap ?s) = 2" by (simp add: run_defs)
  have 3: "entries ?s = [(boxed 1, boxed 4), (boxed 2, boxed 5)]"
    by (simp add: run_defs entries_def forward_def entry_at_def)
  have 4: "boxed 1 \<in> dom (entry (nodeMap ?s))" by (simp add: run_defs)
  from eviction_least_recently_touched [OF h refl p k 1 2, of "boxed 6"]
  obtain e where e: "e = fst (last (entries ?s))"
    and lt: "\<forall>k'\<in>dom (entry (nodeMap ?s)). k' \<noteq> e \<longrightarrow>
              last_touch (map key_of ?cs) e < last_touch (map key_of ?cs) k'"
    and pe: "entries (Put (boxed 3) (boxed 6) ?s) = (boxed 3, boxed 6) # butlast (entries ?s)"
    by blast
  from e have e2: "e = boxed 2" by (simp only: 3) simp
  from lt 4 have 5: "last_touch (map key_of ?cs) (boxed 2) < last_touch (map key_of ?cs) (boxed 1)"
    unfolding e2 by simp
  from pe have 6: "entries (Put (boxed 3) (boxed 6) ?s) = [(boxed 3, boxed 6), (boxed 1, boxed 4)]"
    by (simp only: 3) simp
  from h k 1 2 3 5 6 show ?thesis by (intro conjI)
qed

text \<open>
  The claim as the specification words it fails: with a key unequal to itself at the back of
  the list of a full cache of capacity 2, \<^verbatim>\<open>removeLast\<close> takes the node off the list but
  removes no key from the map, and the \<^verbatim>\<open>Put\<close> leaves three entries in the map.
\<close>

theorem eviction_of_nan_key_removes_none:
  "(1::int) \<le> 2 \<and>
   map_lookup (nodeMap (run [CallPut nan (boxed (1::int)), CallPut (boxed (2::int)) (boxed 2)]
     (NewLRUCache 2))) (boxed 3) = None \<and>
   len (nodeMap (run [CallPut nan (boxed (1::int)), CallPut (boxed (2::int)) (boxed 2)]
     (NewLRUCache 2))) = 2 \<and>
   nodeMap (removeLast (run [CallPut nan (boxed (1::int)), CallPut (boxed (2::int)) (boxed 2)]
     (NewLRUCache 2))) =
   nodeMap (run [CallPut nan (boxed (1::int)), CallPut (boxed (2::int)) (boxed 2)] (NewLRUCache 2)) \<and>
   len (nodeMap (Put (boxed 3) (boxed 3)
     (run [CallPut nan (boxed (1::int)), CallPut (boxed (2::int)) (boxed 2)] (NewLRUCache 2)))) = 3"
  by (simp add: run_defs)

subsection \<open>Reading back what was put\<close>

text \<open>
  C5, as amended: for every cache made with a capacity \<open>c \<ge> 1\<close>, every state a sequence
  of calls reaches, and every key \<open>k\<close> that is equal to itself, \<^verbatim>\<open>Put(k, v)\<close> followed by
  \<^verbatim>\<open>Get(k)\<close> returns \<open>v\<close>, and the map finds \<open>k\<close> after the \<^verbatim>\<open>Put\<close>. \<^verbatim>\<open>Get\<close> returns
  no found flag; a caller that reads nil as a miss, as the driver does, sees a hit exactly
  when \<open>v\<close> is not nil.
\<close>

theorem Put_then_Get:
  assumes "1 \<le> c" and "k \<noteq> nan"
  shows "fst (Get k (Put k v (run cs (NewLRUCache c)))) = v \<and>
         map_lookup (nodeMap (Put k v (run cs (NewLRUCache c)))) k \<noteq> None \<and>
         (miss (fst (Get k (Put k v (run cs (NewLRUCache c))))) \<longleftrightarrow> v = nil)"
proof -
  let ?s = "run cs (NewLRUCache c)"
  have l: "linked ?s (forward ?s)" by (rule linked_run_forward)
  have g: "fst (Get k (Put k v ?s)) = v" using l assms(2) by (rule Put_Get)
  have "map_lookup (nodeMap (Put k v ?s)) k \<noteq> None"
    using Put_present [OF l assms(2), of v] by auto
  with g show ?thesis by (simp add: miss_def)
qed

theorem Put_then_Get_witness:
  "(1::int) \<le> 1 \<and> boxed (2::int) \<noteq> nan \<and>
   fst (Get (boxed (2::int)) (Put (boxed 2) (boxed (5::int))
     (run [CallPut (boxed 1) (boxed 4)] (NewLRUCache 1)))) = boxed 5 \<and>
   \<not> miss (fst (Get (boxed (2::int)) (Put (boxed 2) (boxed (5::int))
     (run [CallPut (boxed 1) (boxed 4)] (NewLRUCache 1)))))"
proof -
  have h: "(1::int) \<le> 1" by simp
  have k: "boxed (2::int) \<noteq> nan" by simp
  from Put_then_Get [OF h k, of "boxed (5::int)" "[CallPut (boxed 1) (boxed 4)]"]
  show ?thesis by (simp add: miss_def)
qed

text \<open>
  The claim as the specification words it fails in two ways. After \<^verbatim>\<open>Put(1, nil)\<close> the
  result of \<^verbatim>\<open>Get(1)\<close> is a miss for the driver, the same result as on the empty cache.
  After a \<^verbatim>\<open>Put\<close> of the value 7 on a key unequal to itself, \<^verbatim>\<open>Get\<close> of that key returns
  nil, not 7.
\<close>

theorem Put_then_Get_is_miss:
  "miss (fst (Get (boxed (1::int)) (Put (boxed 1) (nil::int iface) (NewLRUCache 1)))) \<and>
   fst (Get (boxed (1::int)) (Put (boxed 1) (nil::int iface) (NewLRUCache 1))) =
   fst (Get (boxed (1::int)) (NewLRUCache 1 :: (int, int) LRUCache)) \<and>
   fst (Get nan (Put nan (boxed (7::int)) (NewLRUCache 1 :: (int, int) LRUCache))) = nil \<and>
   fst (Get nan (Put nan (boxed (7::int)) (NewLRUCache 1 :: (int, int) LRUCache))) \<noteq> boxed 7"
  by (simp add: run_defs miss_def)

subsection \<open>What \<^verbatim>\<open>Get\<close> returns on a miss\<close>

text \<open>
  C10: for a key stored with the value nil, \<^verbatim>\<open>Get\<close> returns nil, which is also what it
  returns for a key that is not stored: the caller sees the same result in both cases.
\<close>

theorem Get_stored_nil_like_absent:
  assumes "map_lookup (nodeMap s) k = Some n" and "Value (nodes s n) = nil"
    and "map_lookup (nodeMap s) k' = None"
  shows "fst (Get k s) = nil \<and> fst (Get k' s) = nil"
  using assms by (simp add: Get_hit Get_miss)

theorem Get_stored_nil_like_absent_witness:
  "map_lookup (nodeMap (Put (boxed (1::int)) (nil::int iface) (NewLRUCache 2))) (boxed 1) = Some 0 \<and>
   Value (nodes (Put (boxed (1::int)) (nil::int iface) (NewLRUCache 2)) 0) = nil \<and>
   map_lookup (nodeMap (Put (boxed (1::int)) (nil::int iface) (NewLRUCache 2))) (boxed 2) = None \<and>
   fst (Get (boxed 1) (Put (boxed (1::int)) (nil::int iface) (NewLRUCache 2))) = nil \<and>
   fst (Get (boxed 2) (Put (boxed (1::int)) (nil::int iface) (NewLRUCache 2))) = nil"
proof -
  let ?s = "Put (boxed (1::int)) (nil::int iface) (NewLRUCache 2)"
  have 1: "map_lookup (nodeMap ?s) (boxed 1) = Some 0" by (simp add: run_defs)
  have 2: "Value (nodes ?s 0) = nil" by (simp add: run_defs)
  have 3: "map_lookup (nodeMap ?s) (boxed 2) = None" by (simp add: run_defs)
  from Get_stored_nil_like_absent [OF 1 2 3] 1 2 3 show ?thesis by blast
qed

text \<open>
  C3, as amended: \<^verbatim>\<open>Get\<close> on a key that is not stored returns nil, with no separate
  found flag, and leaves the cache as it was. The nil differs from what \<^verbatim>\<open>Get\<close> returns
  for any key stored with a value other than nil.
\<close>

theorem Get_absent_returns_nil:
  assumes "map_lookup (nodeMap s) k = None"
  shows "Get k s = (nil, s) \<and>
    (\<forall>k' n. map_lookup (nodeMap s) k' = Some n \<and> Value (nodes s n) \<noteq> nil \<longrightarrow>
       fst (Get k' s) \<noteq> fst (Get k s))"
  using assms by (auto simp: Get_hit Get_miss)

theorem Get_absent_returns_nil_witness:
  "map_lookup (nodeMap (Put (boxed (1::int)) (boxed (7::int)) (NewLRUCache 2))) (boxed 2) = None \<and>
   map_lookup (nodeMap (Put (boxed (1::int)) (boxed (7::int)) (NewLRUCache 2))) (boxed 1) = Some 0 \<and>
   Value (nodes (Put (boxed (1::int)) (boxed (7::int)) (NewLRUCache 2)) 0) \<noteq> nil \<and>
   Get (boxed 2) (Put (boxed (1::int)) (boxed (7::int)) (NewLRUCache 2)) =
     (nil, Put (boxed (1::int)) (boxed (7::int)) (NewLRUCache 2)) \<and>
   fst (Get (boxed 1) (Put (boxed (1::int)) (boxed (7::int)) (NewLRUCache 2))) \<noteq>
   fst (Get (boxed 2) (Put (boxed (1::int)) (boxed (7::int)) (NewLRUCache 2)))"
proof -
  let ?s = "Put (boxed (1::int)) (boxed (7::int)) (NewLRUCache 2)"
  have 1: "map_lookup (nodeMap ?s) (boxed 2) = None" by (simp add: run_defs)
  have 2: "map_lookup (nodeMap ?s) (boxed 1) = Some 0" by (simp add: run_defs)
  have 3: "Value (nodes ?s 0) \<noteq> nil" by (simp add: run_defs)
  from Get_absent_returns_nil [OF 1] 1 2 3 show ?thesis by blast
qed

text \<open>
  The claim as the specification words it fails: with the key 1 stored with the value nil
  and the key 2 not stored, \<^verbatim>\<open>Get\<close> returns the same result for both.
\<close>

theorem Get_absent_not_distinguishable:
  "map_lookup (nodeMap (Put (boxed (1::int)) (nil::int iface) (NewLRUCache 2))) (boxed 1) \<noteq> None \<and>
   map_lookup (nodeMap (Put (boxed (1::int)) (nil::int iface) (NewLRUCache 2))) (boxed 2) = None \<and>
   fst (Get (boxed 2) (Put (boxed (1::int)) (nil::int iface) (NewLRUCache 2))) =
   fst (Get (boxed 1) (Put (boxed (1::int)) (nil::int iface) (NewLRUCache 2)))"
  by (simp add: run_defs)

subsection \<open>Calls on a stored key\<close>

text \<open>
  C6, as amended: for every key \<open>k\<close> stored in a cache that a sequence of calls has reached,
  \<^verbatim>\<open>Put(k, v2)\<close> overwrites the value held for \<open>k\<close> with \<open>v2\<close> and moves the entry to
  the front; it removes no entry, allocates no node and leaves the map, hence the number of
  entries, as it was. In particular, for every key \<open>k'\<close> that is equal to itself,
  \<^verbatim>\<open>Put(k, v1)\<close>, \<^verbatim>\<open>Put(k, v2)\<close>, \<^verbatim>\<open>Get(k)\<close> on any reached state returns \<open>v2\<close>
  (one value, with no found flag), and the second \<^verbatim>\<open>Put\<close> does not change the number of
  entries.
\<close>

theorem Put_overwrite:
  assumes "s = run cs (NewLRUCache c)" and "map_lookup (nodeMap s) k = Some n"
    and "t = run cs' (NewLRUCache c')" and "k' \<noteq> nan"
  shows "stored (Put k v2 s) = (stored s)(k \<mapsto> v2) \<and>
         entries (Put k v2 s) = (k, v2) # filter (\<lambda>e. fst e \<noteq> k) (entries s) \<and>
         nodeMap (Put k v2 s) = nodeMap s \<and>
         len (nodeMap (Put k v2 s)) = len (nodeMap s) \<and>
         length (entries (Put k v2 s)) = length (entries s) \<and>
         fresh (Put k v2 s) = fresh s \<and>
         fst (Get k (Put k v2 s)) = v2 \<and>
         fst (Get k' (Put k' v2 (Put k' v1 t))) = v2 \<and>
         len (nodeMap (Put k' v2 (Put k' v1 t))) = len (nodeMap (Put k' v1 t))"
proof -
  let ?xs = "forward s"
  let ?u = "set_Value n v2 s"
  have l: "linked s ?xs" unfolding assms(1) by (rule linked_run_forward)
  from l assms(2) have n: "n \<in> set ?xs" "Key (nodes s n) = k" "k \<noteq> nan"
    by (auto dest: linked_nodeMap)
  have p: "Put k v2 s = addFirst n (remove n ?u)" using assms(2) by (rule Put_hit_state)
  have lp: "linked (Put k v2 s) (n # remove1 n ?xs)"
    using linked_Put [OF l, of k v2] assms(2) by simp
  have 2: "entries (Put k v2 s) = (k, v2) # filter (\<lambda>e. fst e \<noteq> k) (entries s)"
    using l assms(2) by (rule entries_Put_hit)
  have 3: "nodeMap (Put k v2 s) = nodeMap s"
    unfolding p using nodeMap_touch [of ?u n] assms(2) n(2) by simp
  have V: "\<And>a. Value (nodes (Put k v2 s) a) = (if a = n then v2 else Value (nodes s a))"
    unfolding p by simp
  have 1: "stored (Put k v2 s) = (stored s)(k \<mapsto> v2)"
  proof
    fix j
    show "stored (Put k v2 s) j = ((stored s)(k \<mapsto> v2)) j"
    proof (cases "map_lookup (nodeMap s) j")
      case None
      with assms(2) have "j \<noteq> k" by auto
      with None 3 show ?thesis by (simp add: stored_def)
    next
      case (Some m)
      with l have m: "Key (nodes s m) = j" by (auto dest: linked_nodeMap)
      have mn: "m = n \<longleftrightarrow> j = k"
      proof
        assume "m = n"
        with m n(2) show "j = k" by simp
      next
        assume "j = k"
        with Some assms(2) show "m = n" by simp
      qed
      have "map_lookup (nodeMap (Put k v2 s)) j = Some m" using Some by (simp only: 3)
      then have a: "stored (Put k v2 s) j = Some (Value (nodes (Put k v2 s) m))"
        by (simp add: stored_def)
      have b: "stored s j = Some (Value (nodes s m))" using Some by (simp add: stored_def)
      show ?thesis
      proof (cases "j = k")
        case True
        with mn have "m = n" by simp
        with a True show ?thesis by (simp add: V)
      next
        case False
        with mn have "m \<noteq> n" by simp
        with a b False show ?thesis by (simp add: V)
      qed
    qed
  qed
  have 5: "length (entries (Put k v2 s)) = length (entries s)"
    using linked_entries_length [OF lp] linked_entries_length [OF l] length_touch [OF n(1)]
    by simp
  have 6: "fresh (Put k v2 s) = fresh s" unfolding p by simp
  have 7: "fst (Get k (Put k v2 s)) = v2" using l n(3) by (rule Put_Get)
  have lt: "linked t (forward t)" unfolding assms(3) by (rule linked_run_forward)
  obtain ys where ys: "linked (Put k' v1 t) ys" using linked_Put [OF lt] by blast
  have 8: "fst (Get k' (Put k' v2 (Put k' v1 t))) = v2" using ys assms(4) by (rule Put_Get)
  from Put_present [OF lt assms(4), of v1]
  obtain m where m: "map_lookup (nodeMap (Put k' v1 t)) k' = Some m" by blast
  then have m': "Key (nodes (Put k' v1 t) m) = k'" using ys by (auto dest: linked_nodeMap)
  have "Put k' v2 (Put k' v1 t) = addFirst m (remove m (set_Value m v2 (Put k' v1 t)))"
    using m by (rule Put_hit_state)
  then have "nodeMap (Put k' v2 (Put k' v1 t)) = nodeMap (Put k' v1 t)"
    using nodeMap_touch [of "set_Value m v2 (Put k' v1 t)" m] m m' by simp
  then have 9: "len (nodeMap (Put k' v2 (Put k' v1 t))) = len (nodeMap (Put k' v1 t))" by simp
  show ?thesis using 1 2 3 5 6 7 8 9 by simp
qed

theorem Put_overwrite_witness:
  "map_lookup (nodeMap (run [CallPut (boxed (1::int)) (boxed (4::int)), CallPut (boxed 2) (boxed 5)]
     (NewLRUCache 2))) (boxed 1) = Some 0 \<and>
   boxed (1::int) \<noteq> nan \<and>
   entries (run [CallPut (boxed (1::int)) (boxed (4::int)), CallPut (boxed 2) (boxed 5)]
     (NewLRUCache 2)) = [(boxed 2, boxed 5), (boxed 1, boxed 4)] \<and>
   entries (Put (boxed 1) (boxed 6) (run [CallPut (boxed (1::int)) (boxed (4::int)),
     CallPut (boxed 2) (boxed 5)] (NewLRUCache 2))) = [(boxed 1, boxed 6), (boxed 2, boxed 5)] \<and>
   fst (Get (boxed 1) (Put (boxed 1) (boxed 6) (run [CallPut (boxed (1::int)) (boxed (4::int)),
     CallPut (boxed 2) (boxed 5)] (NewLRUCache 2)))) = boxed 6"
proof -
  let ?s = "run [CallPut (boxed (1::int)) (boxed (4::int)), CallPut (boxed 2) (boxed 5)]
     (NewLRUCache 2)"
  have 1: "map_lookup (nodeMap ?s) (boxed 1) = Some 0" by (simp add: run_defs)
  have k: "boxed (1::int) \<noteq> nan" by simp
  have 2: "entries ?s = [(boxed 2, boxed 5), (boxed 1, boxed 4)]"
    by (simp add: run_defs entries_def forward_def entry_at_def)
  note a = Put_overwrite [where ?v2.0 = "boxed 6" and t = ?s and k' = "boxed 1"
      and ?v1.0 = "boxed 4", OF refl 1 refl k]
  from a have "entries (Put (boxed 1) (boxed 6) ?s) =
      (boxed 1, boxed 6) # filter (\<lambda>e. fst e \<noteq> boxed 1) (entries ?s)"
    by (elim conjE)
  then have 3: "entries (Put (boxed 1) (boxed 6) ?s) = [(boxed 1, boxed 6), (boxed 2, boxed 5)]"
    by (simp only: 2) simp
  from a have 4: "fst (Get (boxed 1) (Put (boxed 1) (boxed 6) ?s)) = boxed 6"
    by (elim conjE)
  from 1 k 2 3 4 show ?thesis by (intro conjI)
qed

text \<open>
  The claim as the specification words it fails in two ways. After \<^verbatim>\<open>Put(1, 4)\<close> and
  \<^verbatim>\<open>Put(1, nil)\<close> the result of \<^verbatim>\<open>Get(1)\<close> is nil, a miss for the driver, not a hit. On a
  key unequal to itself the second \<^verbatim>\<open>Put\<close> adds a second entry, and \<^verbatim>\<open>Get\<close> returns nil.
\<close>

theorem Put_overwrite_is_miss:
  "miss (fst (Get (boxed (1::int))
     (Put (boxed 1) (nil::int iface) (Put (boxed 1) (boxed 4) (NewLRUCache 1))))) \<and>
   fst (Get nan (Put nan (boxed (5::int)) (Put nan (boxed 4)
     (NewLRUCache 2 :: (int, int) LRUCache)))) = nil \<and>
   len (nodeMap (Put nan (boxed (5::int)) (Put nan (boxed 4)
     (NewLRUCache 2 :: (int, int) LRUCache)))) = 2 \<and>
   len (nodeMap (Put nan (boxed (4::int)) (NewLRUCache 2 :: (int, int) LRUCache))) = 1"
  by (simp add: run_defs miss_def)

text \<open>
  C7: for every key \<open>k\<close> stored in a cache that a sequence of calls has reached,
  \<^verbatim>\<open>Get(k)\<close> returns the value held for \<open>k\<close> and moves the entry of \<open>k\<close> to the front of
  the recency order; nothing else changes: the map, the value held for every key, the set
  and the number of the entries, the capacity, the allocated nodes and the key and value of
  every node are the same afterwards.
\<close>

theorem Get_hit_frame:
  assumes "s = run cs (NewLRUCache c)" and "map_lookup (nodeMap s) k = Some n"
  shows "fst (Get k s) = Value (nodes s n) \<and>
         stored s k = Some (fst (Get k s)) \<and>
         entries (snd (Get k s)) =
           (k, Value (nodes s n)) # filter (\<lambda>e. fst e \<noteq> k) (entries s) \<and>
         nodeMap (snd (Get k s)) = nodeMap s \<and>
         stored (snd (Get k s)) = stored s \<and>
         set (entries (snd (Get k s))) = set (entries s) \<and>
         length (entries (snd (Get k s))) = length (entries s) \<and>
         cap (snd (Get k s)) = cap s \<and>
         fresh (snd (Get k s)) = fresh s \<and>
         (\<forall>a. Key (nodes (snd (Get k s)) a) = Key (nodes s a) \<and>
              Value (nodes (snd (Get k s)) a) = Value (nodes s a))"
proof -
  let ?xs = "forward s"
  let ?t = "addFirst n (remove n s)"
  have l: "linked s ?xs" unfolding assms(1) by (rule linked_run_forward)
  from l assms(2) have n: "n \<in> set ?xs" "Key (nodes s n) = k" by (auto dest: linked_nodeMap)
  have t: "snd (Get k s) = ?t" using assms(2) by (rule Get_hit_state)
  have lt: "linked ?t (n # remove1 n ?xs)" using l n(1) by (rule linked_touch)
  have 1: "fst (Get k s) = Value (nodes s n)" using assms(2) by (rule Get_hit)
  have 2: "stored s k = Some (fst (Get k s))" using 1 assms(2) by (simp add: stored_def)
  have 3: "entries (snd (Get k s)) =
      (k, Value (nodes s n)) # filter (\<lambda>e. fst e \<noteq> k) (entries s)"
    using l assms(2) by (rule entries_Get_hit)
  have 4: "nodeMap ?t = nodeMap s" using assms(2) n(2) by (intro nodeMap_touch) simp
  have 5: "stored ?t = stored s" using 4 by (rule stored_cong) simp
  have 6: "set (entries ?t) = set (entries s)" using l n(1) by (rule set_entries_touch)
  have 7: "length (entries ?t) = length (entries s)"
    using linked_entries_length [OF lt] linked_entries_length [OF l] length_touch [OF n(1)]
    by simp
  show ?thesis using 1 2 3 4 5 6 7 unfolding t by simp
qed

theorem Get_hit_frame_witness:
  "map_lookup (nodeMap (run [CallPut (boxed (1::int)) (boxed (4::int)), CallPut (boxed 2) (boxed 5)]
     (NewLRUCache 2))) (boxed 1) = Some 0 \<and>
   fst (Get (boxed 1) (run [CallPut (boxed (1::int)) (boxed (4::int)), CallPut (boxed 2) (boxed 5)]
     (NewLRUCache 2))) = boxed 4 \<and>
   entries (snd (Get (boxed 1) (run [CallPut (boxed (1::int)) (boxed (4::int)),
     CallPut (boxed 2) (boxed 5)] (NewLRUCache 2)))) = [(boxed 1, boxed 4), (boxed 2, boxed 5)] \<and>
   entries (run [CallPut (boxed (1::int)) (boxed (4::int)), CallPut (boxed 2) (boxed 5)]
     (NewLRUCache 2)) = [(boxed 2, boxed 5), (boxed 1, boxed 4)]"
proof -
  let ?s = "run [CallPut (boxed (1::int)) (boxed (4::int)), CallPut (boxed 2) (boxed 5)]
     (NewLRUCache 2)"
  have 1: "map_lookup (nodeMap ?s) (boxed 1) = Some 0" by (simp add: run_defs)
  have 2: "entries ?s = [(boxed 2, boxed 5), (boxed 1, boxed 4)]"
    by (simp add: run_defs entries_def forward_def entry_at_def)
  have 3: "Value (nodes ?s 0) = boxed 4" by (simp add: run_defs)
  from Get_hit_frame [OF refl 1] 1 2 3 show ?thesis by simp
qed

subsection \<open>Unlinking a node\<close>

text \<open>
  C8, as amended: for every node \<open>n\<close> of a linked list, \<^verbatim>\<open>remove\<close> makes the list one
  node shorter, reconnects the neighbours of \<open>n\<close> (walking forward from the head and
  backward from the tail both give the list without \<open>n\<close>) and deletes the key of \<open>n\<close>
  from the map, which then has one entry less (none less when the key is unequal to itself,
  a node that \<^verbatim>\<open>Get\<close> and \<^verbatim>\<open>Put\<close> never pass to \<^verbatim>\<open>remove\<close>). It leaves the \<open>Pre\<close> and
  \<open>Next\<close> links of \<open>n\<close> itself as they were; \<^verbatim>\<open>addFirst\<close> overwrites them, so pushing
  \<open>n\<close> again gives the linked list with \<open>n\<close> at the front.
\<close>

theorem remove_unlinks:
  assumes "linked s xs" and "n \<in> set xs"
  shows "forward (remove n s) = remove1 n xs \<and>
         backward (remove n s) = rev (remove1 n xs) \<and>
         Suc (length (forward (remove n s))) = length (forward s) \<and>
         nodeMap (remove n s) = map_delete (Key (nodes s n)) (nodeMap s) \<and>
         len (nodeMap (remove n s)) =
           len (nodeMap s) - (if Key (nodes s n) = nan then 0 else 1) \<and>
         Pre (nodes (remove n s) n) = Pre (nodes s n) \<and>
         Next (nodes (remove n s) n) = Next (nodes s n) \<and>
         Pre (nodes s n) = pred_of xs n \<and> Next (nodes s n) = succ_of xs n \<and>
         forward (addFirst n (remove n s)) = n # remove1 n xs \<and>
         backward (addFirst n (remove n s)) = rev (n # remove1 n xs)"
proof -
  from assms have d: "distinct xs" by (simp add: linked_def)
  have r: "linked (remove n s) (remove1 n xs)" using assms by (rule linked_remove)
  have a: "linked (addFirst n (remove n s)) (n # remove1 n xs)" using assms by (rule linked_touch)
  have pn: "Pre (nodes s n) = pred_of xs n" "Next (nodes s n) = succ_of xs n"
    using assms by (simp_all add: linked_def)
  have 1: "Suc (length (forward (remove n s))) = length (forward s)"
    using linked_forward [OF r] linked_forward [OF assms(1)] length_touch [OF assms(2)] by simp
  have 2: "len (nodeMap (remove n s)) =
      len (nodeMap s) - (if Key (nodes s n) = nan then 0 else 1)"
    using assms by (rule len_remove)
  have 3: "Pre (nodes (remove n s) n) = Pre (nodes s n)"
    using pn succ_of_neq [OF d, of n] by (simp add: Pre_remove)
  have 4: "Next (nodes (remove n s) n) = Next (nodes s n)"
    using pn pred_of_neq [OF d, of n] by (simp add: Next_remove)
  show ?thesis
    using linked_forward [OF r] linked_backward [OF r] linked_forward [OF a]
      linked_backward [OF a] 1 2 3 4 pn
    by (simp add: nodeMap_remove)
qed

theorem remove_unlinks_witness:
  "forward (run [CallPut (boxed (1::int)) (boxed (4::int)), CallPut (boxed 2) (boxed 5),
     CallPut (boxed 3) (boxed 6)] (NewLRUCache 3)) = [2, 1, 0] \<and>
   forward (remove 1 (run [CallPut (boxed (1::int)) (boxed (4::int)), CallPut (boxed 2) (boxed 5),
     CallPut (boxed 3) (boxed 6)] (NewLRUCache 3))) = [2, 0] \<and>
   backward (remove 1 (run [CallPut (boxed (1::int)) (boxed (4::int)), CallPut (boxed 2) (boxed 5),
     CallPut (boxed 3) (boxed 6)] (NewLRUCache 3))) = [0, 2] \<and>
   forward (addFirst 1 (remove 1 (run [CallPut (boxed (1::int)) (boxed (4::int)),
     CallPut (boxed 2) (boxed 5), CallPut (boxed 3) (boxed 6)] (NewLRUCache 3)))) = [1, 2, 0]"
proof -
  let ?s = "run [CallPut (boxed (1::int)) (boxed (4::int)), CallPut (boxed 2) (boxed 5),
     CallPut (boxed 3) (boxed 6)] (NewLRUCache 3)"
  have f: "forward ?s = [2, 1, 0]" by (simp add: run_defs forward_def)
  have "linked ?s (forward ?s)" by (rule linked_run_forward)
  then have l: "linked ?s [2, 1, 0]" by (simp only: f)
  have n: "(1::nat) \<in> set [2, 1, 0]" by simp
  from remove_unlinks [OF l n] f show ?thesis by simp
qed

text \<open>
  The claim as the specification words it fails: after \<^verbatim>\<open>remove\<close> of the middle node of a
  list of three, the removed node still points at both of its former neighbours.
\<close>

theorem remove_keeps_own_links:
  "forward (run [CallPut (boxed (1::int)) (boxed (4::int)), CallPut (boxed 2) (boxed 5),
     CallPut (boxed 3) (boxed 6)] (NewLRUCache 3)) = [2, 1, 0] \<and>
   Pre (nodes (remove 1 (run [CallPut (boxed (1::int)) (boxed (4::int)),
     CallPut (boxed 2) (boxed 5), CallPut (boxed 3) (boxed 6)] (NewLRUCache 3))) 1) = Some 2 \<and>
   Next (nodes (remove 1 (run [CallPut (boxed (1::int)) (boxed (4::int)),
     CallPut (boxed 2) (boxed 5), CallPut (boxed 3) (boxed 6)] (NewLRUCache 3))) 1) = Some 0"
  by (simp add: run_defs forward_def)

end
